theory Spec2Isabelle
  imports Main "HOL-Library.Word" "HOL-Library.AList" "HOL-Library.Multiset"
begin

section \<open>Data model\<close>

text \<open>
  The script works on a file tree through \<open>pathlib\<close>, \<open>open\<close>, \<open>zipfile\<close> and
  \<open>shutil\<close>. The tree is an association list from absolute paths (the list of segments
  from the root of the file system down, the root directory \<open>/\<close> being \<open>[]\<close>) to
  nodes; the order of the list is the order in which a directory listing returns its
  entries. Standard output is the list of lines printed, one constructor of \<open>msg\<close>
  per \<open>print\<close> of the script. File names are ASCII strings.
\<close>

type_synonym byte = "8 word"
type_synonym bytes = "byte list"
type_synonym path = "string list"

datatype node = File bytes | Dir

datatype error =
    FileNotFoundError
  | FileExistsError
  | IsADirectoryError
  | NotADirectoryError
  | ValueError
  | BadZipFile
  | PermissionError
  | BrokenPipeError
  | Unsupported

datatype msg =
    Created_chunk path nat
  | Skipping path nat
  | Processing path nat
  | Created_directory path
  | Compressed_to path nat
  | Removed_temporary_zip path
  | Removed_original_file path
  | Recovering string path
  | Warning_no_split_files path
  | Concatenating string
  | Created path nat
  | Extracted_to path
  | Removed_directory path
  | Error_recovering path error
  | Error_processing path error

record state =
  files :: "(path \<times> node) list"
  out :: "msg list"

text \<open>
  An operation either returns, or raises an exception; in both cases the tree keeps what
  was written up to that point, so both results carry the state.
\<close>

datatype outcome = Ok state | Raise error state

definition and_then :: "outcome \<Rightarrow> (state \<Rightarrow> outcome) \<Rightarrow> outcome" where
  "and_then r f = (case r of Ok s \<Rightarrow> f s | Raise e s \<Rightarrow> Raise e s)"

definition MAX_SIZE :: nat where
  "MAX_SIZE = 1024 * 1024"

definition CHUNK_SIZE :: int where
  "CHUNK_SIZE = 1024 * 1024"

subsection \<open>Printing\<close>

definition say :: "msg \<Rightarrow> state \<Rightarrow> state" where
  "say m s = s\<lparr>out := out s @ [m]\<rparr>"

definition vsay :: "bool \<Rightarrow> msg \<Rightarrow> state \<Rightarrow> state" where
  "vsay verbose m s = (if verbose then say m s else s)"

subsection \<open>Paths\<close>

definition parent :: "path \<Rightarrow> path" where
  "parent p = butlast p"

definition name :: "path \<Rightarrow> string" where
  "name p = (if p = [] then [] else last p)"

definition child :: "path \<Rightarrow> string \<Rightarrow> path" where
  "child d n = d @ [n]"

definition endswith :: "string \<Rightarrow> string \<Rightarrow> bool" where
  "endswith s suf = (length suf \<le> length s \<and> drop (length s - length suf) s = suf)"

text \<open>
  \<open>PurePath.suffix\<close>: with \<open>i = name.rfind('.')\<close>, the suffix is \<open>name[i:]\<close> when
  \<open>0 < i < len(name) - 1\<close> and the empty string otherwise.
\<close>

definition rfind_dot :: "string \<Rightarrow> nat option" where
  "rfind_dot nm =
     (let r = length (takeWhile (\<lambda>c. c \<noteq> CHR ''.'') (rev nm))
      in if r = length nm then None else Some (length nm - 1 - r))"

definition suffix_of :: "string \<Rightarrow> string" where
  "suffix_of nm =
     (case rfind_dot nm of
        None \<Rightarrow> []
      | Some i \<Rightarrow> if 0 < i \<and> i < length nm - 1 then drop i nm else [])"

text \<open>\<open>with_suffix('')\<close> drops the suffix from the final segment.\<close>

definition with_suffix_empty :: "path \<Rightarrow> path" where
  "with_suffix_empty p =
     child (parent p) (take (length (name p) - length (suffix_of (name p))) (name p))"

subsection \<open>Decimal numerals\<close>

definition digit_char :: "nat \<Rightarrow> char" where
  "digit_char d = ''0123456789'' ! d"

definition digit_val :: "char \<Rightarrow> int option" where
  "digit_val c = map_of (zip ''0123456789'' [0, 1, 2, 3, 4, 5, 6, 7, 8, 9]) c"

text \<open>The text of \<open>{chunk_num}\<close> in an f-string: the decimal numeral of a natural number.\<close>

function show_nat :: "nat \<Rightarrow> string" where
  "show_nat n =
     (if n < 10 then [digit_char n] else show_nat (n div 10) @ [digit_char (n mod 10)])"
  by pat_completeness auto
termination
  by (relation "measure (\<lambda>n. n)") auto

declare show_nat.simps [simp del]

text \<open>
  \<open>int(s)\<close> on an ASCII string: surrounding whitespace is stripped, one sign is allowed,
  then digits, where single underscores may stand between two digits. Anything else raises
  \<open>ValueError\<close>, which is \<open>None\<close> here.
\<close>

definition is_space :: "char \<Rightarrow> bool" where
  "is_space c = (c \<in> set [CHR 0x09, CHR 0x0A, CHR 0x0B, CHR 0x0C, CHR 0x0D, CHR '' ''])"

definition strip :: "string \<Rightarrow> string" where
  "strip s = rev (dropWhile is_space (rev (dropWhile is_space s)))"

fun parse_digits :: "int \<Rightarrow> string \<Rightarrow> int option" where
  "parse_digits acc [] = Some acc"
| "parse_digits acc (c # cs) =
     (if c = CHR ''_'' then
        (case cs of
           [] \<Rightarrow> None
         | d # ds \<Rightarrow> (case digit_val d of
                        None \<Rightarrow> None
                      | Some v \<Rightarrow> parse_digits (10 * acc + v) ds))
      else (case digit_val c of
              None \<Rightarrow> None
            | Some v \<Rightarrow> parse_digits (10 * acc + v) cs))"

definition parse_number :: "string \<Rightarrow> int option" where
  "parse_number s =
     (case s of
        [] \<Rightarrow> None
      | c # cs \<Rightarrow> (case digit_val c of None \<Rightarrow> None | Some v \<Rightarrow> parse_digits v cs))"

definition py_int :: "string \<Rightarrow> int option" where
  "py_int s =
     (case strip s of
        [] \<Rightarrow> None
      | c # cs \<Rightarrow>
          if c = CHR ''-'' then map_option uminus (parse_number cs)
          else if c = CHR ''+'' then parse_number cs
          else parse_number (c # cs))"

subsection \<open>File-system primitives\<close>

definition node_at :: "state \<Rightarrow> path \<Rightarrow> node option" where
  "node_at s p = map_of (files s) p"

definition is_dir :: "state \<Rightarrow> path \<Rightarrow> bool" where
  "is_dir s p = (node_at s p = Some Dir)"

definition exists_path :: "state \<Rightarrow> path \<Rightarrow> bool" where
  "exists_path s p = (node_at s p \<noteq> None)"

definition put :: "path \<Rightarrow> node \<Rightarrow> state \<Rightarrow> state" where
  "put p n s = s\<lparr>files := AList.update p n (files s)\<rparr>"

text \<open>
  \<open>stat().st_size\<close>. The size a directory reports depends on the file system, and the
  scanner hands only non-directories to the caller of this function, so a directory is left
  outside the model.
\<close>

definition st_size :: "state \<Rightarrow> path \<Rightarrow> error + nat" where
  "st_size s p =
     (case node_at s p of
        None \<Rightarrow> Inl FileNotFoundError
      | Some Dir \<Rightarrow> Inl Unsupported
      | Some (File d) \<Rightarrow> Inr (length d))"

text \<open>\<open>Path.mkdir(exist_ok=True)\<close>.\<close>

definition mkdir_exist_ok :: "state \<Rightarrow> path \<Rightarrow> outcome" where
  "mkdir_exist_ok s p =
     (case node_at s p of
        Some Dir \<Rightarrow> Ok s
      | Some (File _) \<Rightarrow> Raise FileExistsError s
      | None \<Rightarrow>
          (case node_at s (parent p) of
             None \<Rightarrow> Raise FileNotFoundError s
           | Some (File _) \<Rightarrow> Raise NotADirectoryError s
           | Some Dir \<Rightarrow> Ok (put p Dir s)))"

text \<open>\<open>open(p, 'wb')\<close> followed by one \<open>write\<close> of all the data.\<close>

definition write_file :: "state \<Rightarrow> path \<Rightarrow> bytes \<Rightarrow> outcome" where
  "write_file s p d =
     (case node_at s p of
        Some Dir \<Rightarrow> Raise IsADirectoryError s
      | _ \<Rightarrow>
          (case node_at s (parent p) of
             None \<Rightarrow> Raise FileNotFoundError s
           | Some (File _) \<Rightarrow> Raise NotADirectoryError s
           | Some Dir \<Rightarrow> Ok (put p (File d) s)))"

text \<open>\<open>open(p, 'rb')\<close> and reading to the end.\<close>

definition read_file :: "state \<Rightarrow> path \<Rightarrow> error + bytes" where
  "read_file s p =
     (case node_at s p of
        None \<Rightarrow> Inl FileNotFoundError
      | Some Dir \<Rightarrow> Inl IsADirectoryError
      | Some (File d) \<Rightarrow> Inr d)"

text \<open>\<open>Path.unlink()\<close>.\<close>

definition unlink :: "state \<Rightarrow> path \<Rightarrow> outcome" where
  "unlink s p =
     (case node_at s p of
        None \<Rightarrow> Raise FileNotFoundError s
      | Some Dir \<Rightarrow> Raise IsADirectoryError s
      | Some (File _) \<Rightarrow> Ok (s\<lparr>files := AList.delete p (files s)\<rparr>))"

text \<open>\<open>shutil.rmtree(p)\<close>: the directory and everything below it.\<close>

definition is_prefix :: "path \<Rightarrow> path \<Rightarrow> bool" where
  "is_prefix d p = (take (length d) p = d)"

definition rmtree :: "state \<Rightarrow> path \<Rightarrow> outcome" where
  "rmtree s p =
     (case node_at s p of
        None \<Rightarrow> Raise FileNotFoundError s
      | Some (File _) \<Rightarrow> Raise NotADirectoryError s
      | Some Dir \<Rightarrow> Ok (s\<lparr>files := filter (\<lambda>(q, _). \<not> is_prefix p q) (files s)\<rparr>))"

subsection \<open>Globbing\<close>

text \<open>
  \<open>fnmatch\<close> for the wildcards \<open>*\<close> (any run of characters) and \<open>?\<close> (one character);
  every other character stands for itself. Bracket expressions, and \<open>**\<close> inside a
  segment (whose meaning changed between Python versions), are outside the model:
  \<open>glob\<close> answers \<open>Unsupported\<close> for a pattern that has them.
\<close>

fun fnmatch :: "string \<Rightarrow> string \<Rightarrow> bool" where
  "fnmatch [] n = (n = [])"
| "fnmatch (c # p) n =
     (if c = CHR ''*'' then
        (fnmatch p n \<or> (case n of [] \<Rightarrow> False | _ # n' \<Rightarrow> fnmatch (c # p) n'))
      else (case n of [] \<Rightarrow> False | x # n' \<Rightarrow> (c = CHR ''?'' \<or> c = x) \<and> fnmatch p n'))"

fun has_double_star :: "string \<Rightarrow> bool" where
  "has_double_star (a # b # cs) =
     ((a = CHR ''*'' \<and> b = CHR ''*'') \<or> has_double_star (b # cs))"
| "has_double_star _ = False"

definition listdir :: "state \<Rightarrow> path \<Rightarrow> path list" where
  "listdir s d = filter (\<lambda>p. p \<noteq> [] \<and> parent p = d) (map fst (files s))"

text \<open>\<open>Path.glob(pattern)\<close> for a one-segment pattern; nothing when the path is no directory.\<close>

definition glob :: "state \<Rightarrow> path \<Rightarrow> string \<Rightarrow> error + path list" where
  "glob s d pat =
     (if CHR ''['' \<in> set pat \<or> has_double_star pat then Inl Unsupported
      else if \<not> is_dir s d then Inr []
      else Inr (filter (\<lambda>p. fnmatch pat (name p)) (listdir s d)))"

subsection \<open>The zip library\<close>

text \<open>
  The container format belongs to \<open>zipfile\<close>, not to the script, so it is a parameter:
  \<open>enc\<close> gives the bytes of an archive holding the given entries (name and content), and
  \<open>dec\<close> reads an archive back, \<open>None\<close> standing for \<open>BadZipFile\<close>.
\<close>

type_synonym zip_enc = "(string \<times> bytes) list \<Rightarrow> bytes"
type_synonym zip_dec = "bytes \<Rightarrow> (string \<times> bytes) list option"

text \<open>
  \<open>with ZipFile(zip_path, 'w', ZIP_DEFLATED) as zipf: zipf.write(file_path, arcname)\<close>.
  The archive is opened (created or truncated) first; closing it writes the entries
  collected, also when \<open>write\<close> raised.
\<close>

definition zip_write :: "zip_enc \<Rightarrow> state \<Rightarrow> path \<Rightarrow> path \<Rightarrow> string \<Rightarrow> outcome" where
  "zip_write enc s zip_path file_path arcname =
     and_then (write_file s zip_path []) (\<lambda>s1.
       case read_file s1 file_path of
         Inl e \<Rightarrow> (case write_file s1 zip_path (enc []) of
                     Ok s2 \<Rightarrow> Raise e s2
                   | Raise e' s2 \<Rightarrow> Raise e' s2)
       | Inr d \<Rightarrow> write_file s1 zip_path (enc [(arcname, d)]))"

text \<open>
  \<open>ZipFile.extractall(base)\<close>. A member name is cut at \<open>/\<close>, its empty, \<open>.\<close> and
  \<open>..\<close> segments are dropped, missing upper directories are made, and a name ending in
  \<open>/\<close> is a directory.
\<close>

fun split_slash :: "string \<Rightarrow> string list" where
  "split_slash [] = [[]]"
| "split_slash (c # cs) =
     (if c = CHR ''/'' then [] # split_slash cs
      else (case split_slash cs of
              [] \<Rightarrow> [[c]]
            | x # xs \<Rightarrow> (c # x) # xs))"

definition member_segments :: "string \<Rightarrow> string list" where
  "member_segments fname =
     filter (\<lambda>x. x \<noteq> [] \<and> x \<noteq> ''.'' \<and> x \<noteq> ''..'') (split_slash fname)"

fun makedirs :: "state \<Rightarrow> path \<Rightarrow> string list \<Rightarrow> outcome" where
  "makedirs s pre [] = Ok s"
| "makedirs s pre (c # cs) =
     (case mkdir_exist_ok s (child pre c) of
        Raise e s' \<Rightarrow> Raise e s'
      | Ok s' \<Rightarrow> makedirs s' (child pre c) cs)"

definition extract_member :: "state \<Rightarrow> path \<Rightarrow> string \<times> bytes \<Rightarrow> outcome" where
  "extract_member s base m =
     (let target = base @ member_segments (fst m);
          upperdirs = parent target
      in and_then (if exists_path s upperdirs then Ok s else makedirs s [] upperdirs) (\<lambda>s1.
           if endswith (fst m) ''/'' then mkdir_exist_ok s1 target
           else write_file s1 target (snd m)))"

fun extractall :: "state \<Rightarrow> path \<Rightarrow> (string \<times> bytes) list \<Rightarrow> outcome" where
  "extractall s base [] = Ok s"
| "extractall s base (m # ms) =
     (case extract_member s base m of
        Raise e s' \<Rightarrow> Raise e s'
      | Ok s' \<Rightarrow> extractall s' base ms)"

text \<open>\<open>with zipfile.ZipFile(zip_path, 'r') as zipf: zipf.extractall(base)\<close>.\<close>

definition zip_extract :: "zip_dec \<Rightarrow> state \<Rightarrow> path \<Rightarrow> path \<Rightarrow> outcome" where
  "zip_extract dec s zip_path base =
     (case read_file s zip_path of
        Inl e \<Rightarrow> Raise e s
      | Inr d \<Rightarrow> (case dec d of
                    None \<Rightarrow> Raise BadZipFile s
                  | Some ms \<Rightarrow> extractall s base ms))"

section \<open>The script\<close>

subsection \<open>split_file\<close>

text \<open>\<open>f.read(n)\<close> on what is left of the stream: everything when \<open>n\<close> is negative.\<close>

definition f_read :: "int \<Rightarrow> bytes \<Rightarrow> bytes" where
  "f_read n rest = (if n < 0 then rest else take (nat n) rest)"

definition chunk_path :: "path \<Rightarrow> string \<Rightarrow> nat \<Rightarrow> path" where
  "chunk_path output_dir zname chunk_num = child output_dir (zname @ ''.'' @ show_nat chunk_num)"

text \<open>
  The \<open>while True\<close> loop of \<open>split_file\<close>; \<open>rest\<close> is the unread part of the stream that
  was opened before the loop.
\<close>

function split_loop ::
  "int \<Rightarrow> string \<Rightarrow> path \<Rightarrow> bool \<Rightarrow> bytes \<Rightarrow> nat \<Rightarrow> state \<Rightarrow> outcome" where
  "split_loop max_chunk_size zname output_dir verbose rest chunk_num s =
     (if f_read max_chunk_size rest = [] then Ok s
      else
        (case write_file s (chunk_path output_dir zname chunk_num) (f_read max_chunk_size rest) of
           Raise e s' \<Rightarrow> Raise e s'
         | Ok s' \<Rightarrow>
             split_loop max_chunk_size zname output_dir verbose
               (drop (length (f_read max_chunk_size rest)) rest) (chunk_num + 1)
               (vsay verbose
                  (Created_chunk (chunk_path output_dir zname chunk_num)
                     (length (f_read max_chunk_size rest))) s')))"
  by pat_completeness auto
termination
  by (relation "measure (\<lambda>(n, z, d, v, rest, k, s). length rest)")
    (auto simp: f_read_def split: if_splits)

declare split_loop.simps [simp del]

definition split_file :: "state \<Rightarrow> path \<Rightarrow> path \<Rightarrow> int \<Rightarrow> bool \<Rightarrow> outcome" where
  "split_file s zip_path output_dir max_chunk_size verbose =
     (case read_file s zip_path of
        Inl e \<Rightarrow> Raise e s
      | Inr data \<Rightarrow> split_loop max_chunk_size (name zip_path) output_dir verbose data 1 s)"

subsection \<open>compress_and_split\<close>

definition compress_and_split :: "zip_enc \<Rightarrow> state \<Rightarrow> path \<Rightarrow> bool \<Rightarrow> bool \<Rightarrow> outcome" where
  "compress_and_split enc s file_path auto_remove verbose =
     (case st_size s file_path of
        Inl e \<Rightarrow> Raise e s
      | Inr file_size \<Rightarrow>
          if file_size \<le> MAX_SIZE then Ok (vsay verbose (Skipping file_path file_size) s)
          else
            (let dir_name = child (parent file_path) (name file_path @ ''.dir'');
                 zip_path = child (parent file_path) (name file_path @ ''.zip'')
             in
             and_then (mkdir_exist_ok (say (Processing file_path file_size) s) dir_name) (\<lambda>s1.
             and_then (zip_write enc (vsay verbose (Created_directory dir_name) s1)
                         zip_path file_path (name file_path)) (\<lambda>s2.
             and_then (if verbose then
                         (case st_size s2 zip_path of
                            Inl e \<Rightarrow> Raise e s2
                          | Inr n \<Rightarrow> Ok (say (Compressed_to zip_path n) s2))
                       else Ok s2) (\<lambda>s3.
             and_then (split_file s3 zip_path dir_name CHUNK_SIZE verbose) (\<lambda>s4.
             and_then (unlink s4 zip_path) (\<lambda>s5.
             if auto_remove then
               and_then (unlink (vsay verbose (Removed_temporary_zip zip_path) s5) file_path) (\<lambda>s6.
                 Ok (vsay verbose (Removed_original_file file_path) s6))
             else Ok (vsay verbose (Removed_temporary_zip zip_path) s5))))))))"

subsection \<open>recover_file\<close>

text \<open>The sort key \<open>int(x.suffix[1:])\<close>.\<close>

definition chunk_key :: "path \<Rightarrow> int option" where
  "chunk_key x = py_int (drop 1 (suffix_of (name x)))"

text \<open>The keys of all the paths, as \<open>sorted\<close> computes them first: none when one raises.\<close>

fun keyed :: "path list \<Rightarrow> (int \<times> path) list option" where
  "keyed [] = Some []"
| "keyed (x # xs) =
     (case chunk_key x of
        None \<Rightarrow> None
      | Some k \<Rightarrow> (case keyed xs of None \<Rightarrow> None | Some ys \<Rightarrow> Some ((k, x) # ys)))"

text \<open>
  \<open>sorted(dir_path.glob(f"{original_name}.zip.*"), key=lambda x: int(x.suffix[1:]))\<close>;
  the sort is stable, as \<open>sort_key\<close> is.
\<close>

definition sorted_chunks :: "state \<Rightarrow> path \<Rightarrow> string \<Rightarrow> error + path list" where
  "sorted_chunks s dir_path original_name =
     (case glob s dir_path (original_name @ ''.zip.*'') of
        Inl e \<Rightarrow> Inl e
      | Inr xs \<Rightarrow> (case keyed xs of
                     None \<Rightarrow> Inl ValueError
                   | Some kxs \<Rightarrow> Inr (map snd (sort_key fst kxs))))"

text \<open>
  The loop over the chunks inside \<open>with open(zip_path, 'wb') as outf\<close>; \<open>written\<close> is what
  went through the open handle so far.
\<close>

fun concat_loop :: "state \<Rightarrow> path \<Rightarrow> bytes \<Rightarrow> path list \<Rightarrow> bool \<Rightarrow> outcome" where
  "concat_loop s zip_path written [] verbose = Ok s"
| "concat_loop s zip_path written (chunk # chunks) verbose =
     (case read_file (vsay verbose (Concatenating (name chunk)) s) chunk of
        Inl e \<Rightarrow> Raise e (vsay verbose (Concatenating (name chunk)) s)
      | Inr d \<Rightarrow>
          concat_loop
            (put zip_path (File (written @ d)) (vsay verbose (Concatenating (name chunk)) s))
            zip_path (written @ d) chunks verbose)"

definition concatenate :: "state \<Rightarrow> path \<Rightarrow> path list \<Rightarrow> bool \<Rightarrow> outcome" where
  "concatenate s zip_path zip_chunks verbose =
     and_then (write_file s zip_path []) (\<lambda>s1. concat_loop s1 zip_path [] zip_chunks verbose)"

definition recover_file :: "zip_dec \<Rightarrow> state \<Rightarrow> path \<Rightarrow> bool \<Rightarrow> bool \<Rightarrow> outcome" where
  "recover_file dec s dir_path auto_remove verbose =
     (let dir_name = name dir_path in
      if \<not> endswith dir_name ''.dir'' then Ok s
      else
        (let original_name = take (length dir_name - 4) dir_name;
             original_path = child (parent dir_path) original_name;
             s0 = say (Recovering original_name dir_path) s
         in
         case sorted_chunks s0 dir_path original_name of
           Inl e \<Rightarrow> Raise e s0
         | Inr zip_chunks \<Rightarrow>
             if zip_chunks = [] then Ok (say (Warning_no_split_files dir_path) s0)
             else
               (let zip_path = child (parent dir_path) (original_name @ ''.zip'') in
                and_then (concatenate s0 zip_path zip_chunks verbose) (\<lambda>s1.
                and_then (if verbose then
                            (case st_size s1 zip_path of
                               Inl e \<Rightarrow> Raise e s1
                             | Inr n \<Rightarrow> Ok (say (Created zip_path n) s1))
                          else Ok s1) (\<lambda>s2.
                and_then (zip_extract dec s2 zip_path (parent dir_path)) (\<lambda>s3.
                and_then (unlink (vsay verbose (Extracted_to original_path) s3) zip_path) (\<lambda>s4.
                if auto_remove then
                  and_then (rmtree (vsay verbose (Removed_temporary_zip zip_path) s4) dir_path) (\<lambda>s5.
                    Ok (vsay verbose (Removed_directory dir_path) s5))
                else Ok (vsay verbose (Removed_temporary_zip zip_path) s4))))))))"

subsection \<open>scan_directory\<close>

text \<open>
  What a scan meets besides the tree. \<open>Path.is_dir\<close> and \<open>Path.exists\<close> call
  \<open>os.stat\<close>; they answer \<open>False\<close> when the path is absent and raise every other
  failure of \<open>stat\<close> to their caller, as \<open>PermissionError\<close> for an entry of a
  directory that may be listed but not searched. \<open>stat_error\<close> gives that failure for a
  path. \<open>print\<close> raises when standard output refuses the line (a closed pipe);
  \<open>print_error\<close> gives that failure for the lines the two exception handlers print. Both
  calls stand outside the \<open>try\<close> blocks of \<open>scan_directory\<close>. What
  \<open>compress_and_split\<close> and \<open>recover_file\<close> raise is caught there whatever its
  cause; they are reached only for an entry on which \<open>stat\<close> went through.
\<close>

record env =
  stat_error :: "path \<Rightarrow> error option"
  print_error :: "msg \<Rightarrow> error option"

definition path_is_dir :: "env \<Rightarrow> state \<Rightarrow> path \<Rightarrow> error + bool" where
  "path_is_dir env s p = (case stat_error env p of Some e \<Rightarrow> Inl e | None \<Rightarrow> Inr (is_dir s p))"

definition path_exists :: "env \<Rightarrow> state \<Rightarrow> path \<Rightarrow> error + bool" where
  "path_exists env s p =
     (case stat_error env p of Some e \<Rightarrow> Inl e | None \<Rightarrow> Inr (exists_path s p))"

definition handler_print :: "env \<Rightarrow> msg \<Rightarrow> state \<Rightarrow> outcome" where
  "handler_print env m s = (case print_error env m of Some e \<Rightarrow> Raise e s | None \<Rightarrow> Ok (say m s))"

text \<open>
  \<open>PurePath.parts\<close> of an absolute path: the anchor \<open>/\<close>, then every segment from the
  root of the file system down to the entry's own name. \<open>main\<close> passes \<open>os.getcwd()\<close>
  as \<open>root_dir\<close>, so the segments of the scanned directory and of its ancestors are parts
  of every item.
\<close>

definition parts :: "path \<Rightarrow> string list" where
  "parts p = ''/'' # p"

text \<open>
  \<open>root_path.rglob(pattern)\<close> yields \<open>root_path\<close> joined with the relative path of an
  entry below it whose name matches the pattern. \<open>pathlib\<close> lists the directories while
  the loop body changes the tree, so which entries a run meets, and in which order, is not
  fixed by the script: the relative paths met are the parameter \<open>rels\<close>.
\<close>

definition rglob :: "path \<Rightarrow> string \<Rightarrow> path list \<Rightarrow> path list" where
  "rglob root_path pat rels =
     map (\<lambda>rel. root_path @ rel) (filter (\<lambda>rel. rel \<noteq> [] \<and> fnmatch pat (last rel)) rels)"

text \<open>A \<open>for\<close> loop whose body may raise: the exception ends the loop.\<close>

fun for_each :: "(path \<Rightarrow> state \<Rightarrow> outcome) \<Rightarrow> path list \<Rightarrow> state \<Rightarrow> outcome" where
  "for_each body [] s = Ok s"
| "for_each body (item # items) s =
     (case body item s of
        Raise e s' \<Rightarrow> Raise e s'
      | Ok s' \<Rightarrow> for_each body items s')"

text \<open>The body of the loop of recover mode.\<close>

definition scan_recover_item ::
  "zip_dec \<Rightarrow> env \<Rightarrow> bool \<Rightarrow> bool \<Rightarrow> path \<Rightarrow> state \<Rightarrow> outcome" where
  "scan_recover_item dec env auto_remove verbose item s =
     (case path_is_dir env s item of
        Inl e \<Rightarrow> Raise e s
      | Inr d \<Rightarrow>
          if d then
            (case recover_file dec s item auto_remove verbose of
               Ok s' \<Rightarrow> Ok s'
             | Raise e s' \<Rightarrow> handler_print env (Error_recovering item e) s')
          else Ok s)"

text \<open>
  The test \<open>item.suffix == '.zip' and item.with_suffix('').exists()\<close>: \<open>exists\<close> is
  called only for a \<open>.zip\<close> name.
\<close>

definition is_temporary_zip :: "env \<Rightarrow> state \<Rightarrow> path \<Rightarrow> error + bool" where
  "is_temporary_zip env s item =
     (if suffix_of (name item) = ''.zip'' then path_exists env s (with_suffix_empty item)
      else Inr False)"

text \<open>The four tests of split mode that end in \<open>continue\<close>, when none of them raises.\<close>

definition skipped_in_split :: "state \<Rightarrow> path \<Rightarrow> bool" where
  "skipped_in_split s item =
     (is_dir s item
      \<or> (\<exists>part \<in> set (parts item). endswith part ''.dir'')
      \<or> (suffix_of (name item) = ''.zip'' \<and> exists_path s (with_suffix_empty item))
      \<or> name item = ''large_file_splitter.py'')"

text \<open>The body of the loop of split mode.\<close>

definition scan_split_item ::
  "zip_enc \<Rightarrow> env \<Rightarrow> bool \<Rightarrow> bool \<Rightarrow> path \<Rightarrow> state \<Rightarrow> outcome" where
  "scan_split_item enc env auto_remove verbose item s =
     (case path_is_dir env s item of
        Inl e \<Rightarrow> Raise e s
      | Inr d \<Rightarrow>
          if d then Ok s
          else if \<exists>part \<in> set (parts item). endswith part ''.dir'' then Ok s
          else
            (case is_temporary_zip env s item of
               Inl e \<Rightarrow> Raise e s
             | Inr z \<Rightarrow>
                 if z then Ok s
                 else if name item = ''large_file_splitter.py'' then Ok s
                 else
                   (case compress_and_split enc s item auto_remove verbose of
                      Ok s' \<Rightarrow> Ok s'
                    | Raise e s' \<Rightarrow> handler_print env (Error_processing item e) s')))"

definition scan_directory ::
  "zip_enc \<Rightarrow> zip_dec \<Rightarrow> env \<Rightarrow> path \<Rightarrow> path list \<Rightarrow> state \<Rightarrow> bool \<Rightarrow> bool \<Rightarrow> bool
     \<Rightarrow> outcome" where
  "scan_directory enc dec env root_dir rels s recover_mode auto_remove verbose =
     (if recover_mode then
        for_each (scan_recover_item dec env auto_remove verbose) (rglob root_dir ''*.dir'' rels) s
      else
        for_each (scan_split_item enc env auto_remove verbose) (rglob root_dir ''*'' rels) s)"

subsection \<open>A sample archive format\<close>

text \<open>
  For concrete runs: an archive that is the bare content of its members, read back as one
  member named \<open>f\<close>.
\<close>

definition plain_enc :: zip_enc where
  "plain_enc ms = concat (map snd ms)"

definition plain_dec :: zip_dec where
  "plain_dec b = Some [(''f'', b)]"

subsection \<open>Decimal numerals as the specification names them\<close>

definition decimal_digit :: "char \<Rightarrow> bool" where
  "decimal_digit c = (c \<in> set ''0123456789'')"

definition decimal_numeral :: "string \<Rightarrow> bool" where
  "decimal_numeral s = (s \<noteq> [] \<and> (\<forall>c \<in> set s. decimal_digit c))"

subsection \<open>Sample trees\<close>

definition big_content :: bytes where
  "big_content = replicate 1048577 0"

definition big_tree :: state where
  "big_tree = \<lparr>files = [([], Dir), ([''f''], File big_content)], out = []\<rparr>"

definition split_tree :: state where
  "split_tree =
     \<lparr>files = [([], Dir), ([''f''], File big_content), ([''f.dir''], Dir),
               ([''f.dir'', ''f.zip.1''], File (replicate 1048576 0)),
               ([''f.dir'', ''f.zip.2''], File [0])],
      out = []\<rparr>"

definition mixed_tree :: state where
  "mixed_tree =
     \<lparr>files = [([], Dir), ([''a.txt''], File [1, 2, 3]), ([''f.dir''], Dir),
               ([''f.dir'', ''f.zip.bak''], File [9]), ([''g.dir''], Dir)],
      out = []\<rparr>"

definition dir_named_file_tree :: state where
  "dir_named_file_tree = \<lparr>files = [([], Dir), ([''big.dir''], File big_content)], out = []\<rparr>"

text \<open>
  Two environments: one where \<open>stat\<close> and \<open>print\<close> never fail, and one where
  \<open>stat\<close> is refused on everything inside the directory \<open>locked\<close>.
\<close>

definition quiet_env :: env where
  "quiet_env = \<lparr>stat_error = (\<lambda>p. None), print_error = (\<lambda>m. None)\<rparr>"

definition locked_env :: env where
  "locked_env =
     \<lparr>stat_error = (\<lambda>p. if 1 < length p \<and> take 1 p = [''locked''] then Some PermissionError
                          else None),
      print_error = (\<lambda>m. None)\<rparr>"

definition locked_tree :: state where
  "locked_tree =
     \<lparr>files = [([], Dir), ([''locked''], Dir), ([''locked'', ''x''], File [1]),
               ([''locked'', ''y.dir''], Dir), ([''a.txt''], File [1, 2, 3]), ([''g.dir''], Dir)],
      out = []\<rparr>"

definition bak_only_tree :: state where
  "bak_only_tree =
     \<lparr>files = [([], Dir), ([''f.dir''], Dir), ([''f.dir'', ''f.zip.bak''], File [9])],
      out = []\<rparr>"

definition chunk_named_dir_tree :: state where
  "chunk_named_dir_tree =
     \<lparr>files = [([], Dir), ([''f.dir''], Dir), ([''f.dir'', ''f.zip.1''], Dir)], out = []\<rparr>"

definition small_zip_tree :: state where
  "small_zip_tree =
     \<lparr>files = [([], Dir), ([''f.zip''], File [1, 2, 3, 4]), ([''f.dir''], Dir)], out = []\<rparr>"

definition numeric_order_tree :: state where
  "numeric_order_tree =
     \<lparr>files = [([], Dir), ([''f.dir''], Dir), ([''f.dir'', ''f.zip.2''], File [2]),
               ([''f.dir'', ''f.zip.10''], File [10]), ([''f.dir'', ''f.zip.1''], File [1])],
      out = []\<rparr>"

text \<open>The bytes of the file at a path, as the tree holds them.\<close>

definition file_bytes :: "state \<Rightarrow> path \<Rightarrow> bytes" where
  "file_bytes s p = (case node_at s p of Some (File d) \<Rightarrow> d | _ \<Rightarrow> [])"

text \<open>
  A tree in which the chunk directory of \<open>f\<close> exists before the split and holds a file
  \<open>f.zip.bak\<close>, and what a split of \<open>f\<close> with \<open>auto_remove\<close> makes of it.
\<close>

definition stale_tree :: state where
  "stale_tree =
     \<lparr>files = [([], Dir), ([''f''], File big_content), ([''f.dir''], Dir),
               ([''f.dir'', ''f.zip.bak''], File [9])],
      out = []\<rparr>"

definition stale_split_tree :: state where
  "stale_split_tree =
     \<lparr>files = [([], Dir), ([''f.dir''], Dir), ([''f.dir'', ''f.zip.bak''], File [9]),
               ([''f.dir'', ''f.zip.1''], File (replicate 1048576 0)),
               ([''f.dir'', ''f.zip.2''], File [0])],
      out = [Processing [''f''] 1048577]\<rparr>"

section \<open>Basic facts\<close>

subsection \<open>Printing leaves the tree alone\<close>

lemma files_say [simp]: "files (say m s) = files s"
  by (simp add: say_def)

lemma files_vsay [simp]: "files (vsay v m s) = files s"
  by (simp add: vsay_def)

lemma out_say [simp]: "out (say m s) = out s @ [m]"
  by (simp add: say_def)

lemma files_put [simp]: "files (put p n s) = AList.update p n (files s)"
  by (simp add: put_def)

lemma out_put [simp]: "out (put p n s) = out s"
  by (simp add: put_def)

lemma node_at_say [simp]: "node_at (say m s) = node_at s"
  by (rule ext) (simp add: node_at_def)

lemma node_at_vsay [simp]: "node_at (vsay v m s) = node_at s"
  by (rule ext) (simp add: node_at_def)

lemma node_at_put [simp]: "node_at (put p n s) q = (if q = p then Some n else node_at s q)"
  by (simp add: node_at_def update_conv')

lemma is_dir_say [simp]: "is_dir (say m s) = is_dir s"
  by (rule ext) (simp add: is_dir_def)

lemma is_dir_vsay [simp]: "is_dir (vsay v m s) = is_dir s"
  by (rule ext) (simp add: is_dir_def)

lemma exists_path_say [simp]: "exists_path (say m s) = exists_path s"
  by (rule ext) (simp add: exists_path_def)

lemma exists_path_vsay [simp]: "exists_path (vsay v m s) = exists_path s"
  by (rule ext) (simp add: exists_path_def)

lemma listdir_say [simp]: "listdir (say m s) = listdir s"
  by (rule ext) (simp add: listdir_def)

lemma listdir_vsay [simp]: "listdir (vsay v m s) = listdir s"
  by (rule ext) (simp add: listdir_def)

lemma glob_say [simp]: "glob (say m s) = glob s"
  by (rule ext)+ (simp add: glob_def)

lemma glob_vsay [simp]: "glob (vsay v m s) = glob s"
  by (rule ext)+ (simp add: glob_def)

lemma st_size_say [simp]: "st_size (say m s) = st_size s"
  by (rule ext) (simp add: st_size_def)

lemma st_size_vsay [simp]: "st_size (vsay v m s) = st_size s"
  by (rule ext) (simp add: st_size_def)

lemma read_file_say [simp]: "read_file (say m s) = read_file s"
  by (rule ext) (simp add: read_file_def)

lemma read_file_vsay [simp]: "read_file (vsay v m s) = read_file s"
  by (rule ext) (simp add: read_file_def)

lemma sorted_chunks_say [simp]: "sorted_chunks (say m s) = sorted_chunks s"
  by (rule ext)+ (simp add: sorted_chunks_def)

lemma sorted_chunks_vsay [simp]: "sorted_chunks (vsay v m s) = sorted_chunks s"
  by (rule ext)+ (simp add: sorted_chunks_def)

subsection \<open>Sequencing\<close>

lemma and_then_Ok [simp]: "and_then (Ok s) f = f s"
  by (simp add: and_then_def)

lemma and_then_Raise [simp]: "and_then (Raise e s) f = Raise e s"
  by (simp add: and_then_def)

lemma and_then_eq_Ok: "and_then r f = Ok s' \<longleftrightarrow> (\<exists>s1. r = Ok s1 \<and> f s1 = Ok s')"
  by (cases r) simp_all

subsection \<open>Numerals: printing and parsing\<close>

lemma digit_val_simps:
  "digit_val CHR ''0'' = Some 0" "digit_val CHR ''1'' = Some 1" "digit_val CHR ''2'' = Some 2"
  "digit_val CHR ''3'' = Some 3" "digit_val CHR ''4'' = Some 4" "digit_val CHR ''5'' = Some 5"
  "digit_val CHR ''6'' = Some 6" "digit_val CHR ''7'' = Some 7" "digit_val CHR ''8'' = Some 8"
  "digit_val CHR ''9'' = Some 9"
  by (simp_all add: digit_val_def)

lemma digit_cases:
  assumes "decimal_digit c"
  obtains "c = CHR ''0''" | "c = CHR ''1''" | "c = CHR ''2''" | "c = CHR ''3''" | "c = CHR ''4''"
    | "c = CHR ''5''" | "c = CHR ''6''" | "c = CHR ''7''" | "c = CHR ''8''" | "c = CHR ''9''"
  using assms unfolding decimal_digit_def by auto

lemma digit_val_digit: "decimal_digit c \<Longrightarrow> \<exists>v. digit_val c = Some v"
  by (erule digit_cases) (simp_all add: digit_val_simps)

lemma digit_plain:
  "decimal_digit c \<Longrightarrow>
     c \<noteq> CHR ''_'' \<and> c \<noteq> CHR ''-'' \<and> c \<noteq> CHR ''+'' \<and> c \<noteq> CHR ''.'' \<and> \<not> is_space c"
  by (erule digit_cases) (simp_all add: is_space_def)

lemma small_cases:
  assumes "(d::nat) < 10"
  obtains "d = 0" | "d = 1" | "d = 2" | "d = 3" | "d = 4" | "d = 5" | "d = 6" | "d = 7"
    | "d = 8" | "d = 9"
proof -
  from assms have "d = 0 \<or> d = 1 \<or> d = 2 \<or> d = 3 \<or> d = 4 \<or> d = 5 \<or> d = 6 \<or> d = 7
      \<or> d = 8 \<or> d = 9"
    by arith
  then show thesis using that by blast
qed

lemma digit_char_digit: "d < 10 \<Longrightarrow> decimal_digit (digit_char d)"
  by (erule small_cases) (simp_all add: digit_char_def decimal_digit_def)

lemma digit_val_digit_char: "d < 10 \<Longrightarrow> digit_val (digit_char d) = Some (int d)"
  by (erule small_cases) (simp_all add: digit_char_def digit_val_simps)

lemma parse_digits_append:
  "\<forall>c \<in> set ds. decimal_digit c \<Longrightarrow>
     parse_digits acc (ds @ es) =
       (case parse_digits acc ds of None \<Rightarrow> None | Some v \<Rightarrow> parse_digits v es)"
proof (induction ds arbitrary: acc)
  case Nil
  show ?case by simp
next
  case (Cons c ds)
  from Cons.prems have c: "decimal_digit c" by simp
  then obtain v where v: "digit_val c = Some v" using digit_val_digit by blast
  from c have u: "c \<noteq> CHR ''_''" using digit_plain by blast
  from Cons.prems have "\<forall>x \<in> set ds. decimal_digit x" by simp
  then have "parse_digits (10 * acc + v) (ds @ es) =
       (case parse_digits (10 * acc + v) ds of None \<Rightarrow> None | Some w \<Rightarrow> parse_digits w es)"
    by (rule Cons.IH)
  with u v show ?case by simp
qed

lemma parse_digits_total:
  "\<forall>c \<in> set ds. decimal_digit c \<Longrightarrow> \<exists>v. parse_digits acc ds = Some v"
proof (induction ds arbitrary: acc)
  case Nil
  show ?case by simp
next
  case (Cons c ds)
  from Cons.prems have c: "decimal_digit c" by simp
  then obtain v where v: "digit_val c = Some v" using digit_val_digit by blast
  from c have u: "c \<noteq> CHR ''_''" using digit_plain by blast
  from Cons.prems have "\<forall>x \<in> set ds. decimal_digit x" by simp
  then have "\<exists>w. parse_digits (10 * acc + v) ds = Some w" by (rule Cons.IH)
  with u v show ?case by simp
qed

lemma strip_id:
  assumes "s \<noteq> []" "\<not> is_space (hd s)" "\<not> is_space (last s)"
  shows "strip s = s"
proof -
  from assms have "dropWhile is_space s = s" by (cases s) simp_all
  moreover from assms have "dropWhile is_space (rev s) = rev s"
    by (cases "rev s") (simp_all add: hd_rev)
  ultimately show ?thesis by (simp add: strip_def)
qed

lemma strip_decimal:
  assumes "decimal_numeral s"
  shows "strip s = s"
proof -
  from assms have ne: "s \<noteq> []" and all: "\<forall>c \<in> set s. decimal_digit c"
    by (simp_all add: decimal_numeral_def)
  from ne have "hd s \<in> set s" "last s \<in> set s" by simp_all
  with all have "decimal_digit (hd s)" "decimal_digit (last s)" by blast+
  then have "\<not> is_space (hd s)" "\<not> is_space (last s)" using digit_plain by blast+
  with ne show ?thesis by (rule strip_id)
qed

lemma py_int_decimal:
  assumes "decimal_numeral s"
  shows "py_int s = parse_number s \<and> (\<exists>k. parse_number s = Some k)"
proof -
  from assms obtain c cs where s: "s = c # cs" by (cases s) (simp_all add: decimal_numeral_def)
  from assms s have c: "decimal_digit c" and cs: "\<forall>x \<in> set cs. decimal_digit x"
    by (simp_all add: decimal_numeral_def)
  have st: "strip (c # cs) = c # cs" using strip_decimal [OF assms] by (simp add: s)
  obtain v where v: "digit_val c = Some v" using c digit_val_digit by blast
  obtain w where w: "parse_digits v cs = Some w" using parse_digits_total [OF cs] by blast
  have "c \<noteq> CHR ''-''" "c \<noteq> CHR ''+''" using c digit_plain by blast+
  then show ?thesis by (simp add: s py_int_def st parse_number_def v w)
qed

lemma show_nat_digits: "\<forall>c \<in> set (show_nat n). decimal_digit c"
proof (induction n rule: show_nat.induct)
  case (1 n)
  show ?case
  proof (cases "n < 10")
    case True
    then have "decimal_digit (digit_char n)" by (rule digit_char_digit)
    moreover from True have "show_nat n = [digit_char n]" by (subst show_nat.simps) simp
    ultimately show ?thesis by simp
  next
    case False
    have "n mod 10 < 10" by simp
    then have "decimal_digit (digit_char (n mod 10))" by (rule digit_char_digit)
    moreover from False have "\<forall>c \<in> set (show_nat (n div 10)). decimal_digit c" by (rule 1)
    moreover from False have "show_nat n = show_nat (n div 10) @ [digit_char (n mod 10)]"
      by (subst show_nat.simps) simp
    ultimately show ?thesis by simp
  qed
qed

lemma show_nat_nonempty: "show_nat n \<noteq> []"
  by (subst show_nat.simps) simp

lemma show_nat_decimal: "decimal_numeral (show_nat n)"
  by (simp add: decimal_numeral_def show_nat_nonempty show_nat_digits)

lemma div_mod_10: "10 * int (n div 10) + int (n mod 10) = int n"
  by (simp add: zdiv_int zmod_int)

lemma parse_number_show_nat: "parse_number (show_nat n) = Some (int n)"
proof (induction n rule: show_nat.induct)
  case (1 n)
  show ?case
  proof (cases "n < 10")
    case True
    then have "show_nat n = [digit_char n]" by (subst show_nat.simps) simp
    moreover from True have "digit_val (digit_char n) = Some (int n)"
      by (rule digit_val_digit_char)
    ultimately show ?thesis by (simp add: parse_number_def)
  next
    case False
    let ?xs = "show_nat (n div 10)"
    let ?d = "digit_char (n mod 10)"
    have "?xs \<noteq> []" by (rule show_nat_nonempty)
    then obtain c cs where xs: "?xs = c # cs" by (cases ?xs) simp_all
    have "\<forall>x \<in> set ?xs. decimal_digit x" by (rule show_nat_digits)
    then have dig: "\<forall>x \<in> set cs. decimal_digit x" unfolding xs by simp
    from False have "parse_number ?xs = Some (int (n div 10))" by (rule 1)
    then have "parse_number (c # cs) = Some (int (n div 10))" unfolding xs .
    then obtain v where v: "digit_val c = Some v" and p: "parse_digits v cs = Some (int (n div 10))"
      by (cases "digit_val c") (simp_all add: parse_number_def)
    have d: "digit_val ?d = Some (int (n mod 10))"
      by (rule digit_val_digit_char) simp
    have "decimal_digit ?d" by (rule digit_char_digit) simp
    then have u: "?d \<noteq> CHR ''_''" using digit_plain by blast
    have eq: "show_nat n = c # (cs @ [?d])"
      using False by (subst show_nat.simps) (simp add: xs)
    have "parse_number (c # (cs @ [?d])) = parse_digits v (cs @ [?d])"
      by (simp add: parse_number_def v)
    also have "\<dots> = (case parse_digits v cs of None \<Rightarrow> None | Some w \<Rightarrow> parse_digits w [?d])"
      using dig by (rule parse_digits_append)
    also have "\<dots> = Some (10 * int (n div 10) + int (n mod 10))"
      by (simp add: p d u)
    also have "\<dots> = Some (int n)" by (simp only: div_mod_10)
    finally show ?thesis unfolding eq .
  qed
qed

lemma py_int_show_nat: "py_int (show_nat n) = Some (int n)"
  using py_int_decimal [OF show_nat_decimal, of n] by (simp add: parse_number_show_nat)

lemma show_nat_inj:
  assumes "show_nat m = show_nat n"
  shows "m = n"
proof -
  have "py_int (show_nat m) = py_int (show_nat n)" using assms by (rule arg_cong)
  then have "Some (int m) = Some (int n)" by (simp only: py_int_show_nat)
  then show ?thesis by simp
qed

subsection \<open>What the primitives do to the tree\<close>

lemma write_file_Ok:
  "write_file s p d = Ok s' \<longleftrightarrow>
     node_at s p \<noteq> Some Dir \<and> node_at s (parent p) = Some Dir \<and> s' = put p (File d) s"
  by (auto simp: write_file_def split: option.splits node.splits)

lemma mkdir_Ok:
  "mkdir_exist_ok s p = Ok s' \<longleftrightarrow>
     (node_at s p = Some Dir \<and> s' = s)
     \<or> (node_at s p = None \<and> node_at s (parent p) = Some Dir \<and> s' = put p Dir s)"
  by (auto simp: mkdir_exist_ok_def split: option.splits node.splits)

lemma unlink_Ok:
  "unlink s p = Ok s' \<longleftrightarrow>
     (\<exists>d. node_at s p = Some (File d)) \<and> s' = s\<lparr>files := AList.delete p (files s)\<rparr>"
  by (auto simp: unlink_def split: option.splits node.splits)

lemma rmtree_Ok:
  "rmtree s p = Ok s' \<longleftrightarrow>
     node_at s p = Some Dir \<and> s' = s\<lparr>files := filter (\<lambda>(q, _). \<not> is_prefix p q) (files s)\<rparr>"
  by (auto simp: rmtree_def split: option.splits node.splits)

lemma node_at_delete [simp]:
  "node_at (s\<lparr>files := AList.delete p (files s)\<rparr>) q = (if q = p then None else node_at s q)"
  by (simp add: node_at_def delete_conv')

lemma map_of_filter_keys:
  "map_of (filter (\<lambda>(q, _). P q) xs) k = (if P k then map_of xs k else None)"
  by (induction xs) auto

lemma node_at_rmtree [simp]:
  "node_at (s\<lparr>files := filter (\<lambda>(q, _). \<not> is_prefix p q) (files s)\<rparr>) q
     = (if is_prefix p q then None else node_at s q)"
  by (simp add: node_at_def map_of_filter_keys)

lemma is_prefix_refl [simp]: "is_prefix p p"
  by (simp add: is_prefix_def)

lemma mkdir_node_at:
  "mkdir_exist_ok s p = Ok s' \<Longrightarrow> node_at s' q = (if q = p then Some Dir else node_at s q)"
  by (auto simp: mkdir_Ok)

lemma write_file_node_at:
  "write_file s p d = Ok s' \<Longrightarrow> node_at s' q = (if q = p then Some (File d) else node_at s q)"
  by (auto simp: write_file_Ok)

lemma unlink_node_at:
  "unlink s p = Ok s' \<Longrightarrow> node_at s' q = (if q = p then None else node_at s q)"
  by (auto simp: unlink_Ok)

lemma rmtree_node_at:
  "rmtree s p = Ok s' \<Longrightarrow> node_at s' q = (if is_prefix p q then None else node_at s q)"
  by (auto simp: rmtree_Ok)

subsection \<open>Paths made by the script differ from the path they are made from\<close>

lemma sibling_neq: "x \<noteq> [] \<Longrightarrow> child (parent p) (name p @ x) \<noteq> p"
  by (cases p rule: rev_cases) (simp_all add: child_def parent_def name_def)

lemma sibling_neq2: "x \<noteq> y \<Longrightarrow> child d (n @ x) \<noteq> child d (n @ y)"
  by (simp add: child_def)

lemma chunk_path_neq_sibling: "chunk_path (child d a) z k \<noteq> child d b"
  by (simp add: chunk_path_def child_def)

lemma chunk_path_neq_self: "chunk_path (child (parent p) a) z k \<noteq> p"
proof
  assume "chunk_path (child (parent p) a) z k = p"
  then have "length (chunk_path (child (parent p) a) z k) = length p" by simp
  then show False by (simp add: chunk_path_def child_def parent_def)
qed

subsection \<open>split_loop writes chunk paths only\<close>

lemma split_loop_frame:
  "split_loop n z od v rest k s = Ok s' \<Longrightarrow> (\<forall>j. q \<noteq> chunk_path od z j) \<Longrightarrow>
     node_at s' q = node_at s q"
proof (induction n z od v rest k s rule: split_loop.induct)
  case (1 n z od v rest k s)
  show ?case
  proof (cases "f_read n rest = []")
    case True
    with "1.prems" show ?thesis by (simp add: split_loop.simps [of n z od v rest k s])
  next
    case False
    from "1.prems"(1) False obtain s1 where
      w: "write_file s (chunk_path od z k) (f_read n rest) = Ok s1" and
      r: "split_loop n z od v (drop (length (f_read n rest)) rest) (k + 1)
            (vsay v (Created_chunk (chunk_path od z k) (length (f_read n rest))) s1) = Ok s'"
      by (simp add: split_loop.simps [of n z od v rest k s] split: outcome.splits)
    from "1.IH" [OF False w r "1.prems"(2)]
    have "node_at s' q = node_at s1 q" by simp
    also from w "1.prems"(2) have "\<dots> = node_at s q" by (simp add: write_file_node_at)
    finally show ?thesis .
  qed
qed

lemma split_file_frame:
  "split_file s zp od n v = Ok s' \<Longrightarrow> (\<forall>j. q \<noteq> chunk_path od (name zp) j) \<Longrightarrow>
     node_at s' q = node_at s q"
  by (auto simp: split_file_def split: sum.splits dest: split_loop_frame)

lemma zip_write_node_at:
  "zip_write enc s zp fp a = Ok s' \<Longrightarrow> q \<noteq> zp \<Longrightarrow> node_at s' q = node_at s q"
  by (auto simp: zip_write_def and_then_eq_Ok write_file_Ok split: sum.splits outcome.splits)

subsection \<open>Recovery: frames and directories\<close>

lemma concat_loop_frame:
  "concat_loop s zp w cs v = Ok s' \<Longrightarrow> q \<noteq> zp \<Longrightarrow> node_at s' q = node_at s q"
proof (induction cs arbitrary: s w)
  case Nil
  then show ?case by simp
next
  case (Cons c cs)
  from Cons.prems(1) obtain d where
    r: "concat_loop (put zp (File (w @ d)) (vsay v (Concatenating (name c)) s)) zp (w @ d) cs v = Ok s'"
    by (auto split: sum.splits)
  from Cons.IH [OF r Cons.prems(2)] Cons.prems(2) show ?case by simp
qed

lemma concatenate_frame:
  "concatenate s zp cs v = Ok s' \<Longrightarrow> q \<noteq> zp \<Longrightarrow> node_at s' q = node_at s q"
  by (auto simp: concatenate_def and_then_eq_Ok write_file_Ok dest: concat_loop_frame)

lemma mkdir_keeps_dirs:
  "mkdir_exist_ok s p = Ok s' \<Longrightarrow> node_at s q = Some Dir \<Longrightarrow> node_at s' q = Some Dir"
  by (auto simp: mkdir_Ok)

lemma write_file_keeps_dirs:
  "write_file s p d = Ok s' \<Longrightarrow> node_at s q = Some Dir \<Longrightarrow> node_at s' q = Some Dir"
  by (auto simp: write_file_Ok)

lemma makedirs_keeps_dirs:
  "makedirs s pre cs = Ok s' \<Longrightarrow> node_at s q = Some Dir \<Longrightarrow> node_at s' q = Some Dir"
proof (induction cs arbitrary: s pre)
  case Nil
  then show ?case by simp
next
  case (Cons c cs)
  from Cons.prems(1) obtain s1 where
    m: "mkdir_exist_ok s (child pre c) = Ok s1" and r: "makedirs s1 (child pre c) cs = Ok s'"
    by (auto split: outcome.splits)
  from m Cons.prems(2) have "node_at s1 q = Some Dir" by (rule mkdir_keeps_dirs)
  with r show ?case by (rule Cons.IH)
qed

lemma extract_member_keeps_dirs:
  assumes "extract_member s base m = Ok s'" and "node_at s q = Some Dir"
  shows "node_at s' q = Some Dir"
proof -
  let ?target = "base @ member_segments (fst m)"
  from assms(1) obtain s1 where
    a: "(if exists_path s (parent ?target) then Ok s else makedirs s [] (parent ?target)) = Ok s1"
    and b: "(if endswith (fst m) ''/'' then mkdir_exist_ok s1 ?target
             else write_file s1 ?target (snd m)) = Ok s'"
    by (auto simp: extract_member_def Let_def and_then_eq_Ok)
  from a assms(2) have "node_at s1 q = Some Dir"
    by (auto split: if_splits dest: makedirs_keeps_dirs)
  with b show ?thesis
    by (auto split: if_splits dest: mkdir_keeps_dirs write_file_keeps_dirs)
qed

lemma extractall_keeps_dirs:
  "extractall s base ms = Ok s' \<Longrightarrow> node_at s q = Some Dir \<Longrightarrow> node_at s' q = Some Dir"
proof (induction ms arbitrary: s)
  case Nil
  then show ?case by simp
next
  case (Cons m ms)
  from Cons.prems(1) obtain s1 where
    e: "extract_member s base m = Ok s1" and r: "extractall s1 base ms = Ok s'"
    by (auto split: outcome.splits)
  from e Cons.prems(2) have "node_at s1 q = Some Dir" by (rule extract_member_keeps_dirs)
  with r show ?case by (rule Cons.IH)
qed

lemma zip_extract_keeps_dirs:
  "zip_extract dec s zp base = Ok s' \<Longrightarrow> node_at s q = Some Dir \<Longrightarrow> node_at s' q = Some Dir"
  by (auto simp: zip_extract_def split: sum.splits option.splits dest: extractall_keeps_dirs)

lemma verbose_stat_Ok:
  "(if v then (case st_size s p of Inl e \<Rightarrow> Raise e s | Inr n \<Rightarrow> Ok (say (m n) s)) else Ok s) = Ok s'
     \<Longrightarrow> node_at s' = node_at s"
  by (auto split: if_splits sum.splits)

lemma glob_nonempty_is_dir: "glob s d pat = Inr xs \<Longrightarrow> xs \<noteq> [] \<Longrightarrow> is_dir s d"
  by (auto simp: glob_def split: if_splits)

subsection \<open>The steps of a run that returns\<close>

lemma compress_and_split_steps:
  assumes "st_size s fp = Inr n" and "MAX_SIZE < n"
    and "compress_and_split enc s fp ar v = Ok s'"
  obtains s1 s2 s3 s4 s5 where
    "mkdir_exist_ok (say (Processing fp n) s) (child (parent fp) (name fp @ ''.dir'')) = Ok s1"
    "zip_write enc (vsay v (Created_directory (child (parent fp) (name fp @ ''.dir''))) s1)
       (child (parent fp) (name fp @ ''.zip'')) fp (name fp) = Ok s2"
    "node_at s3 = node_at s2"
    "split_file s3 (child (parent fp) (name fp @ ''.zip''))
       (child (parent fp) (name fp @ ''.dir'')) CHUNK_SIZE v = Ok s4"
    "unlink s4 (child (parent fp) (name fp @ ''.zip'')) = Ok s5"
    "if ar then (\<exists>s6. unlink (vsay v (Removed_temporary_zip (child (parent fp) (name fp @ ''.zip''))) s5) fp = Ok s6
                  \<and> s' = vsay v (Removed_original_file fp) s6)
     else s' = vsay v (Removed_temporary_zip (child (parent fp) (name fp @ ''.zip''))) s5"
proof -
  let ?dir = "child (parent fp) (name fp @ ''.dir'')"
  let ?zip = "child (parent fp) (name fp @ ''.zip'')"
  from assms obtain s1 s2 s3 s4 s5 where
    st1: "mkdir_exist_ok (say (Processing fp n) s) ?dir = Ok s1" and
    st2: "zip_write enc (vsay v (Created_directory ?dir) s1) ?zip fp (name fp) = Ok s2" and
    st3: "(if v then (case st_size s2 ?zip of Inl e \<Rightarrow> Raise e s2
                    | Inr k \<Rightarrow> Ok (say (Compressed_to ?zip k) s2)) else Ok s2) = Ok s3" and
    st4: "split_file s3 ?zip ?dir CHUNK_SIZE v = Ok s4" and
    st5: "unlink s4 ?zip = Ok s5" and
    st6: "(if ar then
           and_then (unlink (vsay v (Removed_temporary_zip ?zip) s5) fp) (\<lambda>s6.
             Ok (vsay v (Removed_original_file fp) s6))
         else Ok (vsay v (Removed_temporary_zip ?zip) s5)) = Ok s'"
    by (simp add: compress_and_split_def Let_def and_then_eq_Ok) blast
  from st3 have st3': "node_at s3 = node_at s2" by (rule verbose_stat_Ok)
  from st6 have st6': "if ar then (\<exists>s6. unlink (vsay v (Removed_temporary_zip ?zip) s5) fp = Ok s6
                  \<and> s' = vsay v (Removed_original_file fp) s6)
     else s' = vsay v (Removed_temporary_zip ?zip) s5"
    by (auto simp: and_then_eq_Ok split: if_splits)
  from st1 st2 st3' st4 st5 st6' show thesis by (rule that)
qed

lemma keyed_Some:
  "keyed xs = Some ys \<Longrightarrow> map snd ys = xs \<and> (\<forall>(k, x) \<in> set ys. chunk_key x = Some k)"
proof (induction xs arbitrary: ys)
  case Nil
  then show ?case by simp
next
  case (Cons x xs)
  from Cons.prems obtain k zs where k: "chunk_key x = Some k" and z: "keyed xs = Some zs"
    and ys: "ys = (k, x) # zs"
    by (auto split: option.splits)
  from Cons.IH [OF z] k ys show ?case by simp
qed

lemma keyed_None: "keyed xs = None \<longleftrightarrow> (\<exists>x \<in> set xs. chunk_key x = None)"
  by (induction xs) (auto split: option.splits)

lemma sorted_chunks_nonempty:
  assumes "glob s dp (orig @ ''.zip.*'') = Inr xs" and "xs \<noteq> []"
    and "sorted_chunks s dp orig = Inr cs"
  shows "cs \<noteq> []"
proof -
  from assms(1,3) obtain ys where y: "keyed xs = Some ys" and cs: "cs = map snd (sort_key fst ys)"
    by (auto simp: sorted_chunks_def split: option.splits)
  from keyed_Some [OF y] have "length ys = length xs" by (metis length_map)
  with assms(2) cs show ?thesis by (metis length_map length_sort length_0_conv)
qed

lemma recover_file_steps:
  assumes "endswith (name dp) ''.dir''"
    and "glob s dp (take (length (name dp) - 4) (name dp) @ ''.zip.*'') = Inr xs" and "xs \<noteq> []"
    and "recover_file dec s dp ar v = Ok s'"
  obtains cs s1 s2 s3 s4 where
    "sorted_chunks s dp (take (length (name dp) - 4) (name dp)) = Inr cs"
    "concatenate (say (Recovering (take (length (name dp) - 4) (name dp)) dp) s)
       (child (parent dp) (take (length (name dp) - 4) (name dp) @ ''.zip'')) cs v = Ok s1"
    "node_at s2 = node_at s1"
    "zip_extract dec s2 (child (parent dp) (take (length (name dp) - 4) (name dp) @ ''.zip''))
       (parent dp) = Ok s3"
    "unlink (vsay v (Extracted_to (child (parent dp) (take (length (name dp) - 4) (name dp)))) s3)
       (child (parent dp) (take (length (name dp) - 4) (name dp) @ ''.zip'')) = Ok s4"
    "if ar then (\<exists>s5. rmtree (vsay v (Removed_temporary_zip
                    (child (parent dp) (take (length (name dp) - 4) (name dp) @ ''.zip''))) s4) dp = Ok s5
                  \<and> s' = vsay v (Removed_directory dp) s5)
     else s' = vsay v (Removed_temporary_zip
                    (child (parent dp) (take (length (name dp) - 4) (name dp) @ ''.zip''))) s4"
proof -
  let ?orig = "take (length (name dp) - 4) (name dp)"
  let ?zip = "child (parent dp) (?orig @ ''.zip'')"
  let ?s0 = "say (Recovering ?orig dp) s"
  from assms(2,3) have ne: "\<And>cs. sorted_chunks s dp ?orig = Inr cs \<Longrightarrow> cs \<noteq> []"
    by (rule sorted_chunks_nonempty)
  from assms(1,4) obtain cs where c: "sorted_chunks s dp ?orig = Inr cs"
    by (cases "sorted_chunks s dp ?orig") (simp_all add: recover_file_def Let_def)
  with ne have cne: "cs \<noteq> []" by blast
  from assms(1,4) c cne obtain s1 s2 s3 s4 where
    st1: "concatenate ?s0 ?zip cs v = Ok s1" and
    st2: "(if v then (case st_size s1 ?zip of Inl e \<Rightarrow> Raise e s1
                    | Inr k \<Rightarrow> Ok (say (Created ?zip k) s1)) else Ok s1) = Ok s2" and
    st3: "zip_extract dec s2 ?zip (parent dp) = Ok s3" and
    st4: "unlink (vsay v (Extracted_to (child (parent dp) ?orig)) s3) ?zip = Ok s4" and
    st5: "(if ar then
           and_then (rmtree (vsay v (Removed_temporary_zip ?zip) s4) dp) (\<lambda>s5.
             Ok (vsay v (Removed_directory dp) s5))
         else Ok (vsay v (Removed_temporary_zip ?zip) s4)) = Ok s'"
    by (simp add: recover_file_def Let_def and_then_eq_Ok) blast
  from st2 have st2': "node_at s2 = node_at s1" by (rule verbose_stat_Ok)
  from st5 have st5': "if ar then (\<exists>s5. rmtree (vsay v (Removed_temporary_zip ?zip) s4) dp = Ok s5
                  \<and> s' = vsay v (Removed_directory dp) s5)
     else s' = vsay v (Removed_temporary_zip ?zip) s4"
    by (auto simp: and_then_eq_Ok split: if_splits)
  from c st1 st2' st3 st4 st5' show thesis by (rule that)
qed

subsection \<open>Runs on the sample trees\<close>

lemma length_big_content [simp]: "length big_content = 1048577"
  by (simp add: big_content_def)

lemma show_nat_small:
  "show_nat (Suc 0) = ''1''" "show_nat (Suc (Suc 0)) = ''2''"
  "show_nat (Suc (Suc (Suc 0))) = ''3''"
  by (simp_all add: show_nat.simps digit_char_def)

lemma split_big:
  "split_loop CHUNK_SIZE ''f.zip'' [''f.dir''] False big_content (Suc 0)
     \<lparr>files = [([], Dir), ([''f''], File big_content), ([''f.dir''], Dir),
               ([''f.zip''], File big_content)], out = out0\<rparr>
   = Ok \<lparr>files = [([], Dir), ([''f''], File big_content), ([''f.dir''], Dir),
               ([''f.zip''], File big_content),
               ([''f.dir'', ''f.zip.1''], File (replicate 1048576 0)),
               ([''f.dir'', ''f.zip.2''], File [0])], out = out0\<rparr>"
  apply (subst split_loop.simps)
  apply (simp add: f_read_def CHUNK_SIZE_def big_content_def write_file_def node_at_def
      chunk_path_def child_def parent_def show_nat_small put_def vsay_def)
  apply (subst split_loop.simps)
  apply (simp add: f_read_def CHUNK_SIZE_def write_file_def node_at_def
      chunk_path_def child_def parent_def show_nat_small put_def vsay_def)
  apply (subst split_loop.simps)
  apply (simp add: f_read_def CHUNK_SIZE_def)
  done

lemma big_content_split: "replicate 1048576 0 @ [0] = big_content"
proof -
  have "(1048577::nat) = Suc 1048576" by simp
  then have "big_content = replicate (Suc 1048576) 0" by (simp only: big_content_def)
  then show ?thesis by (simp only: replicate_Suc replicate_append_same)
qed

lemma run_split_keep:
  "compress_and_split plain_enc big_tree [''f''] False False
     = Ok (split_tree\<lparr>out := [Processing [''f''] 1048577]\<rparr>)"
  by (simp add: compress_and_split_def big_tree_def split_tree_def st_size_def node_at_def
      MAX_SIZE_def Let_def child_def parent_def name_def mkdir_exist_ok_def say_def vsay_def
      put_def zip_write_def write_file_def read_file_def plain_enc_def split_file_def
      split_big unlink_def)

lemma run_split_remove:
  "compress_and_split plain_enc big_tree [''f''] True False
     = Ok \<lparr>files = [([], Dir), ([''f.dir''], Dir),
               ([''f.dir'', ''f.zip.1''], File (replicate 1048576 0)),
               ([''f.dir'', ''f.zip.2''], File [0])],
           out = [Processing [''f''] 1048577]\<rparr>"
  by (simp add: compress_and_split_def big_tree_def st_size_def node_at_def
      MAX_SIZE_def Let_def child_def parent_def name_def mkdir_exist_ok_def say_def vsay_def
      put_def zip_write_def write_file_def read_file_def plain_enc_def split_file_def
      split_big unlink_def)

lemma chunk_key_1: "chunk_key [''f.dir'', ''f.zip.1''] = Some 1"
  by (simp add: chunk_key_def name_def suffix_of_def rfind_dot_def py_int_def strip_def
      is_space_def parse_number_def digit_val_def)

lemma chunk_key_2: "chunk_key [''f.dir'', ''f.zip.2''] = Some 2"
  by (simp add: chunk_key_def name_def suffix_of_def rfind_dot_def py_int_def strip_def
      is_space_def parse_number_def digit_val_def)

lemma sorted_chunks_split_tree:
  "sorted_chunks split_tree [''f.dir''] ''f'' = Inr [[''f.dir'', ''f.zip.1''], [''f.dir'', ''f.zip.2'']]"
  by (simp add: sorted_chunks_def glob_def split_tree_def is_dir_def node_at_def listdir_def
      parent_def name_def chunk_key_1 chunk_key_2)

lemma run_recover_keep:
  "recover_file plain_dec split_tree [''f.dir''] False False
     = Ok (split_tree\<lparr>out := [Recovering ''f'' [''f.dir'']]\<rparr>)"
  apply (simp add: recover_file_def name_def endswith_def Let_def sorted_chunks_split_tree)
  apply (simp add: concatenate_def child_def parent_def write_file_def read_file_def
      zip_extract_def plain_dec_def extract_member_def member_segments_def exists_path_def
      unlink_def big_content_split split_tree_def node_at_def put_def say_def vsay_def
      name_def endswith_def Let_def)
  done

lemma run_recover_remove:
  "recover_file plain_dec split_tree [''f.dir''] True False
     = Ok \<lparr>files = [([], Dir), ([''f''], File big_content)],
           out = [Recovering ''f'' [''f.dir'']]\<rparr>"
  apply (simp add: recover_file_def name_def endswith_def Let_def sorted_chunks_split_tree)
  apply (simp add: concatenate_def child_def parent_def write_file_def read_file_def
      zip_extract_def plain_dec_def extract_member_def member_segments_def exists_path_def
      unlink_def big_content_split split_tree_def node_at_def put_def say_def vsay_def
      name_def endswith_def Let_def rmtree_def is_prefix_def)
  done

subsection \<open>Cleanup and removal\<close>

lemma endswith_split: "endswith s suf \<Longrightarrow> take (length s - length suf) s @ suf = s"
  unfolding endswith_def by (metis append_take_drop_id)

lemma endswith_dir:
  assumes "endswith s ''.dir''"
  shows "take (length s - 4) s @ ''.dir'' = s"
proof -
  have l: "length ''.dir'' = (4::nat)" by simp
  from assms have "take (length s - length ''.dir'') s @ ''.dir'' = s" by (rule endswith_split)
  then show ?thesis unfolding l .
qed

lemma split_keeps_source:
  assumes "node_at s fp = Some (File d)" and "MAX_SIZE < length d"
    and "compress_and_split enc s fp False v = Ok s'"
  shows "node_at s' fp = Some (File d)"
proof -
  let ?dir = "child (parent fp) (name fp @ ''.dir'')"
  let ?zip = "child (parent fp) (name fp @ ''.zip'')"
  from assms(1) have sz: "st_size s fp = Inr (length d)" by (simp add: st_size_def)
  have neq: "?dir \<noteq> fp" "?zip \<noteq> fp" by (simp_all add: sibling_neq)
  from sz assms(2,3) obtain s1 s2 s3 s4 s5 where
    st1: "mkdir_exist_ok (say (Processing fp (length d)) s) ?dir = Ok s1" and
    st2: "zip_write enc (vsay v (Created_directory ?dir) s1) ?zip fp (name fp) = Ok s2" and
    st3: "node_at s3 = node_at s2" and
    st4: "split_file s3 ?zip ?dir CHUNK_SIZE v = Ok s4" and
    st5: "unlink s4 ?zip = Ok s5" and
    st6: "if False then (\<exists>s6. unlink (vsay v (Removed_temporary_zip ?zip) s5) fp = Ok s6
                  \<and> s' = vsay v (Removed_original_file fp) s6)
          else s' = vsay v (Removed_temporary_zip ?zip) s5"
    by (rule compress_and_split_steps)
  from st1 neq have "node_at s1 fp = node_at s fp" by (simp add: mkdir_node_at)
  moreover from st2 neq have "node_at s2 fp = node_at s1 fp"
    using zip_write_node_at [OF st2, of fp] by simp
  moreover have "node_at s4 fp = node_at s3 fp"
    using st4 by (rule split_file_frame) (simp add: chunk_path_neq_self [symmetric])
  moreover from st5 neq have "node_at s5 fp = node_at s4 fp" by (simp add: unlink_node_at)
  moreover from st6 have "node_at s' fp = node_at s5 fp" by simp
  ultimately show ?thesis using st3 assms(1) by simp
qed

lemma split_removes_source:
  assumes "node_at s fp = Some (File d)" and "MAX_SIZE < length d"
    and "compress_and_split enc s fp True v = Ok s'"
  shows "node_at s' fp = None"
proof -
  let ?zip = "child (parent fp) (name fp @ ''.zip'')"
  from assms(1) have sz: "st_size s fp = Inr (length d)" by (simp add: st_size_def)
  from sz assms(2,3) obtain s5 where
    "if True then (\<exists>s6. unlink (vsay v (Removed_temporary_zip ?zip) s5) fp = Ok s6
                  \<and> s' = vsay v (Removed_original_file fp) s6)
          else s' = vsay v (Removed_temporary_zip ?zip) s5"
    by (rule compress_and_split_steps)
  then obtain s6 where "unlink (vsay v (Removed_temporary_zip ?zip) s5) fp = Ok s6"
    and "s' = vsay v (Removed_original_file fp) s6" by auto
  then show ?thesis by (simp add: unlink_node_at)
qed

lemma split_removes_container:
  assumes "st_size s fp = Inr n" and "MAX_SIZE < n"
    and "compress_and_split enc s fp ar v = Ok s'"
  shows "node_at s' (child (parent fp) (name fp @ ''.zip'')) = None"
proof -
  let ?zip = "child (parent fp) (name fp @ ''.zip'')"
  from assms obtain s4 s5 where
    st5: "unlink s4 ?zip = Ok s5" and
    st6: "if ar then (\<exists>s6. unlink (vsay v (Removed_temporary_zip ?zip) s5) fp = Ok s6
                  \<and> s' = vsay v (Removed_original_file fp) s6)
          else s' = vsay v (Removed_temporary_zip ?zip) s5"
    by (rule compress_and_split_steps)
  from st5 have "node_at s5 ?zip = None" by (simp add: unlink_node_at)
  with st6 show ?thesis by (auto simp: unlink_node_at split: if_splits)
qed

lemma recover_removes_container:
  assumes "endswith (name dp) ''.dir''"
    and "glob s dp (take (length (name dp) - 4) (name dp) @ ''.zip.*'') = Inr xs" and "xs \<noteq> []"
    and "recover_file dec s dp ar v = Ok s'"
  shows "node_at s' (child (parent dp) (take (length (name dp) - 4) (name dp) @ ''.zip'')) = None"
proof -
  let ?orig = "take (length (name dp) - 4) (name dp)"
  let ?zip = "child (parent dp) (?orig @ ''.zip'')"
  from assms obtain s3 s4 where
    st4: "unlink (vsay v (Extracted_to (child (parent dp) ?orig)) s3) ?zip = Ok s4" and
    st5: "if ar then (\<exists>s5. rmtree (vsay v (Removed_temporary_zip ?zip) s4) dp = Ok s5
                  \<and> s' = vsay v (Removed_directory dp) s5)
          else s' = vsay v (Removed_temporary_zip ?zip) s4"
    by (rule recover_file_steps)
  from st4 have "node_at s4 ?zip = None" by (simp add: unlink_node_at)
  with st5 show ?thesis by (auto simp: rmtree_node_at split: if_splits)
qed

lemma recover_keeps_directory:
  assumes "endswith (name dp) ''.dir''"
    and "glob s dp (take (length (name dp) - 4) (name dp) @ ''.zip.*'') = Inr xs" and "xs \<noteq> []"
    and "recover_file dec s dp False v = Ok s'"
  shows "is_dir s' dp"
proof -
  let ?orig = "take (length (name dp) - 4) (name dp)"
  let ?zip = "child (parent dp) (?orig @ ''.zip'')"
  from assms(2,3) have d: "node_at s dp = Some Dir"
    using glob_nonempty_is_dir by (simp add: is_dir_def)
  from assms obtain cs s1 s2 s3 s4 where
    st1: "concatenate (say (Recovering ?orig dp) s) ?zip cs v = Ok s1" and
    st2: "node_at s2 = node_at s1" and
    st3: "zip_extract dec s2 ?zip (parent dp) = Ok s3" and
    st4: "unlink (vsay v (Extracted_to (child (parent dp) ?orig)) s3) ?zip = Ok s4" and
    st5: "if False then (\<exists>s5. rmtree (vsay v (Removed_temporary_zip ?zip) s4) dp = Ok s5
                  \<and> s' = vsay v (Removed_directory dp) s5)
          else s' = vsay v (Removed_temporary_zip ?zip) s4"
    by (rule recover_file_steps)
  have zneq: "?zip \<noteq> dp"
  proof
    assume "?zip = dp"
    then have "name ?zip = name dp" by simp
    then have "?orig @ ''.zip'' = name dp" by (simp add: child_def name_def)
    also have "\<dots> = ?orig @ ''.dir''" using assms(1) by (simp add: endswith_dir)
    finally show False by simp
  qed
  from zneq have zneq': "dp \<noteq> ?zip" by (rule not_sym)
  from st1 zneq' d have "node_at s1 dp = Some Dir" by (simp add: concatenate_frame)
  with st2 have "node_at s2 dp = Some Dir" by simp
  with st3 have "node_at s3 dp = Some Dir" by (rule zip_extract_keeps_dirs)
  with st4 zneq' have "node_at s4 dp = Some Dir" by (simp add: unlink_node_at)
  with st5 show ?thesis by (simp add: is_dir_def)
qed

lemma recover_removes_directory:
  assumes "endswith (name dp) ''.dir''"
    and "glob s dp (take (length (name dp) - 4) (name dp) @ ''.zip.*'') = Inr xs" and "xs \<noteq> []"
    and "recover_file dec s dp True v = Ok s'"
  shows "node_at s' dp = None"
proof -
  let ?orig = "take (length (name dp) - 4) (name dp)"
  let ?zip = "child (parent dp) (?orig @ ''.zip'')"
  from assms obtain s4 where
    "if True then (\<exists>s5. rmtree (vsay v (Removed_temporary_zip ?zip) s4) dp = Ok s5
                  \<and> s' = vsay v (Removed_directory dp) s5)
          else s' = vsay v (Removed_temporary_zip ?zip) s4"
    by (rule recover_file_steps)
  then show ?thesis by (auto simp: rmtree_node_at)
qed

subsection \<open>The scanner\<close>

lemma for_each_append:
  "for_each body (xs @ ys) s
     = (case for_each body xs s of Raise e s' \<Rightarrow> Raise e s' | Ok s' \<Rightarrow> for_each body ys s')"
  by (induction xs arbitrary: s) (auto split: outcome.splits)

lemma for_each_returns:
  assumes "\<And>item s. item \<in> set items \<Longrightarrow> \<exists>s'. body item s = Ok s'"
  shows "\<exists>s'. for_each body items s = Ok s'"
  using assms
proof (induction items arbitrary: s)
  case Nil
  show ?case by simp
next
  case (Cons item items)
  from Cons.prems [of item s] obtain s1 where 1: "body item s = Ok s1" by auto
  from Cons.IH [of s1] Cons.prems obtain s2 where "for_each body items s1 = Ok s2" by auto
  with 1 show ?case by simp
qed

lemma fnmatch_star: "fnmatch ''*'' n"
  by (induction n) simp_all

lemma rglob_star: "rglob root ''*'' rels = map (\<lambda>rel. root @ rel) (filter (\<lambda>rel. rel \<noteq> []) rels)"
  unfolding rglob_def using fnmatch_star by presburger

lemma rglob_append: "rglob root pat (xs @ ys) = rglob root pat xs @ rglob root pat ys"
  by (simp add: rglob_def)

lemma scan_split_item_Raise:
  "stat_error env item = None \<Longrightarrow> stat_error env (with_suffix_empty item) = None \<Longrightarrow>
     \<not> skipped_in_split s item \<Longrightarrow> compress_and_split enc s item ar v = Raise e s' \<Longrightarrow>
     scan_split_item enc env ar v item s = handler_print env (Error_processing item e) s'"
  by (auto simp: scan_split_item_def skipped_in_split_def path_is_dir_def path_exists_def
      is_temporary_zip_def)

lemma scan_split_item_Ok:
  "stat_error env item = None \<Longrightarrow> stat_error env (with_suffix_empty item) = None \<Longrightarrow>
     \<not> skipped_in_split s item \<Longrightarrow> compress_and_split enc s item ar v = Ok s' \<Longrightarrow>
     scan_split_item enc env ar v item s = Ok s'"
  by (auto simp: scan_split_item_def skipped_in_split_def path_is_dir_def path_exists_def
      is_temporary_zip_def)

lemma scan_split_item_skip:
  "stat_error env item = None \<Longrightarrow> stat_error env (with_suffix_empty item) = None \<Longrightarrow>
     skipped_in_split s item \<Longrightarrow> scan_split_item enc env ar v item s = Ok s"
  by (auto simp: scan_split_item_def skipped_in_split_def path_is_dir_def path_exists_def
      is_temporary_zip_def)

lemma scan_split_item_returns:
  assumes "stat_error env item = None" and "stat_error env (with_suffix_empty item) = None"
    and "\<forall>e. print_error env (Error_processing item e) = None"
  shows "\<exists>s'. scan_split_item enc env ar v item s = Ok s'"
proof (cases "skipped_in_split s item")
  case True
  with assms show ?thesis by (simp add: scan_split_item_skip)
next
  case False
  show ?thesis
  proof (cases "compress_and_split enc s item ar v")
    case (Ok s')
    with False assms show ?thesis by (simp add: scan_split_item_Ok)
  next
    case (Raise e s')
    with False assms show ?thesis by (simp add: scan_split_item_Raise handler_print_def)
  qed
qed

lemma scan_recover_item_Raise:
  "stat_error env item = None \<Longrightarrow> is_dir s item \<Longrightarrow>
     recover_file dec s item ar v = Raise e s' \<Longrightarrow>
     scan_recover_item dec env ar v item s = handler_print env (Error_recovering item e) s'"
  by (simp add: scan_recover_item_def path_is_dir_def)

lemma scan_recover_item_returns:
  assumes "stat_error env item = None"
    and "\<forall>e. print_error env (Error_recovering item e) = None"
  shows "\<exists>s'. scan_recover_item dec env ar v item s = Ok s'"
  using assms
  by (auto simp: scan_recover_item_def path_is_dir_def handler_print_def split: outcome.splits)

lemma rglob_member: "p \<in> set (rglob root pat rels) \<Longrightarrow> \<exists>rel \<in> set rels. p = root @ rel"
  by (auto simp: rglob_def)

lemma rglob_subset:
  "set (rglob root pat xs) \<subseteq> set (rglob root pat (xs @ item # ys))"
  "set (rglob root pat ys) \<subseteq> set (rglob root pat (xs @ item # ys))"
  by (auto simp: rglob_def)

lemmas scan_eval = scan_directory_def scan_split_item_def scan_recover_item_def rglob_def
      path_is_dir_def path_exists_def is_temporary_zip_def handler_print_def parts_def
      is_dir_def node_at_def endswith_def name_def parent_def child_def suffix_of_def
      rfind_dot_def compress_and_split_def st_size_def MAX_SIZE_def vsay_def say_def
      recover_file_def Let_def sorted_chunks_def glob_def listdir_def chunk_key_def
      py_int_def strip_def is_space_def parse_number_def digit_val_def exists_path_def
      with_suffix_empty_def

subsection \<open>What int() rejects\<close>

lemma digit_val_Some_digit: "digit_val c = Some v \<Longrightarrow> decimal_digit c"
  unfolding digit_val_def decimal_digit_def by (metis map_of_SomeD set_zip_leftD)

lemma parse_digits_chars:
  "parse_digits acc cs = Some v \<Longrightarrow> c \<in> set cs \<Longrightarrow> c = CHR ''_'' \<or> decimal_digit c"
proof (induction acc cs rule: parse_digits.induct)
  case (1 acc)
  then show ?case by simp
next
  case (2 acc x xs)
  show ?case
  proof (cases "x = CHR ''_''")
    case True
    with "2.prems"(1) obtain d ds w where xs: "xs = d # ds" and w: "digit_val d = Some w"
      and r: "parse_digits (10 * acc + w) ds = Some v"
      by (auto split: list.splits option.splits)
    from "2.prems"(2) xs consider "c = x" | "c = d" | "c \<in> set ds" by auto
    then show ?thesis
    proof cases
      case 1
      with True show ?thesis by simp
    next
      case 2
      with w show ?thesis by (simp add: digit_val_Some_digit)
    next
      case 3
      with "2.IH"(1) [OF True xs w r] show ?thesis .
    qed
  next
    case False
    with "2.prems"(1) obtain w where w: "digit_val x = Some w"
      and r: "parse_digits (10 * acc + w) xs = Some v"
      by (auto split: option.splits)
    from "2.prems"(2) consider "c = x" | "c \<in> set xs" by auto
    then show ?thesis
    proof cases
      case 1
      with w show ?thesis by (simp add: digit_val_Some_digit)
    next
      case 2
      with "2.IH"(2) [OF False w r] show ?thesis .
    qed
  qed
qed

lemma parse_number_chars:
  "parse_number cs = Some v \<Longrightarrow> c \<in> set cs \<Longrightarrow> c = CHR ''_'' \<or> decimal_digit c"
  by (auto simp: parse_number_def split: list.splits option.splits
      dest: parse_digits_chars digit_val_Some_digit)

lemma in_set_dropWhile: "x \<in> set xs \<Longrightarrow> \<not> P x \<Longrightarrow> x \<in> set (dropWhile P xs)"
  by (induction xs) auto

lemma in_set_strip: "c \<in> set s \<Longrightarrow> \<not> is_space c \<Longrightarrow> c \<in> set (strip s)"
  by (simp add: strip_def in_set_dropWhile)

lemma py_int_bad_char:
  assumes "c \<in> set s" and "\<not> is_space c" and "\<not> decimal_digit c"
    and "c \<noteq> CHR ''_''" and "c \<noteq> CHR ''+''" and "c \<noteq> CHR ''-''"
  shows "py_int s = None"
proof (rule ccontr)
  assume "py_int s \<noteq> None"
  then obtain k where k: "py_int s = Some k" by blast
  from assms(1,2) have m: "c \<in> set (strip s)" by (rule in_set_strip)
  then obtain d ds where st: "strip s = d # ds" by (cases "strip s") auto
  from k st obtain w where "(d = CHR ''-'' \<or> d = CHR ''+'') \<and> parse_number ds = Some w
      \<or> parse_number (d # ds) = Some w"
    by (auto simp: py_int_def split: if_splits)
  then show False
  proof
    assume a: "(d = CHR ''-'' \<or> d = CHR ''+'') \<and> parse_number ds = Some w"
    with m st assms(5,6) have "c \<in> set ds" by auto
    with a have "c = CHR ''_'' \<or> decimal_digit c" using parse_number_chars by blast
    with assms(3,4) show False by simp
  next
    assume "parse_number (d # ds) = Some w"
    with m st have "c = CHR ''_'' \<or> decimal_digit c" using parse_number_chars by metis
    with assms(3,4) show False by simp
  qed
qed

subsection \<open>Only the sort key raises ValueError\<close>

lemma and_then_eq_Raise:
  "and_then r f = Raise e t \<longleftrightarrow> r = Raise e t \<or> (\<exists>s1. r = Ok s1 \<and> f s1 = Raise e t)"
  by (cases r) simp_all

lemma write_file_no_ValueError: "write_file s p d \<noteq> Raise ValueError t"
  by (auto simp: write_file_def split: option.splits node.splits)

lemma mkdir_no_ValueError: "mkdir_exist_ok s p \<noteq> Raise ValueError t"
  by (auto simp: mkdir_exist_ok_def split: option.splits node.splits)

lemma unlink_no_ValueError: "unlink s p \<noteq> Raise ValueError t"
  by (auto simp: unlink_def split: option.splits node.splits)

lemma rmtree_no_ValueError: "rmtree s p \<noteq> Raise ValueError t"
  by (auto simp: rmtree_def split: option.splits node.splits)

lemma read_file_no_ValueError: "read_file s p \<noteq> Inl ValueError"
  by (auto simp: read_file_def split: option.splits node.splits)

lemma st_size_no_ValueError: "st_size s p \<noteq> Inl ValueError"
  by (auto simp: st_size_def split: option.splits node.splits)

lemma concat_loop_no_ValueError: "concat_loop s zp w cs v \<noteq> Raise ValueError t"
proof (induction cs arbitrary: s w)
  case Nil
  show ?case by simp
next
  case (Cons c cs)
  show ?case
  proof (cases "read_file (vsay v (Concatenating (name c)) s) c")
    case (Inl e)
    with read_file_no_ValueError [of "vsay v (Concatenating (name c)) s" c]
    show ?thesis by auto
  next
    case (Inr d)
    with Cons.IH show ?thesis by simp
  qed
qed

lemma concatenate_no_ValueError: "concatenate s zp cs v \<noteq> Raise ValueError t"
  by (simp add: concatenate_def and_then_eq_Raise write_file_no_ValueError
      concat_loop_no_ValueError)

lemma makedirs_no_ValueError: "makedirs s pre cs \<noteq> Raise ValueError t"
proof (induction cs arbitrary: s pre)
  case Nil
  show ?case by simp
next
  case (Cons c cs)
  show ?case
  proof (cases "mkdir_exist_ok s (child pre c)")
    case (Ok s1)
    with Cons.IH show ?thesis by simp
  next
    case (Raise e s1)
    with mkdir_no_ValueError [of s "child pre c"] show ?thesis by auto
  qed
qed

lemma extract_member_no_ValueError: "extract_member s base m \<noteq> Raise ValueError t"
  by (simp add: extract_member_def Let_def and_then_eq_Raise makedirs_no_ValueError
      mkdir_no_ValueError write_file_no_ValueError)

lemma extractall_no_ValueError: "extractall s base ms \<noteq> Raise ValueError t"
proof (induction ms arbitrary: s)
  case Nil
  show ?case by simp
next
  case (Cons m ms)
  show ?case
  proof (cases "extract_member s base m")
    case (Ok s1)
    with Cons.IH show ?thesis by simp
  next
    case (Raise e s1)
    with extract_member_no_ValueError [of s base m] show ?thesis by auto
  qed
qed

lemma zip_extract_no_ValueError: "zip_extract dec s zp base \<noteq> Raise ValueError t"
  using read_file_no_ValueError [of s zp]
  by (auto simp: zip_extract_def extractall_no_ValueError split: sum.splits option.splits)

lemma verbose_stat_no_ValueError:
  "(if v then (case st_size s p of Inl e \<Rightarrow> Raise e s | Inr n \<Rightarrow> Ok (say (m n) s)) else Ok s)
     \<noteq> Raise ValueError t"
  using st_size_no_ValueError [of s p] by (auto split: sum.splits)

lemma recover_file_ValueError_from_sort:
  assumes "sorted_chunks s dp (take (length (name dp) - 4) (name dp)) = Inr cs"
  shows "recover_file dec s dp ar v \<noteq> Raise ValueError t"
  using assms
  by (simp add: recover_file_def Let_def and_then_eq_Raise concatenate_no_ValueError
      verbose_stat_no_ValueError zip_extract_no_ValueError unlink_no_ValueError
      rmtree_no_ValueError)

lemma sorted_chunks_decimal:
  assumes "glob s dp (orig @ ''.zip.*'') = Inr xs"
    and "\<forall>x \<in> set xs. decimal_numeral (drop 1 (suffix_of (name x)))"
  shows "\<exists>cs. sorted_chunks s dp orig = Inr cs"
proof -
  have "keyed xs \<noteq> None"
  proof
    assume "keyed xs = None"
    then obtain x where x: "x \<in> set xs" and n: "chunk_key x = None"
      by (auto simp: keyed_None)
    from x assms(2) have "decimal_numeral (drop 1 (suffix_of (name x)))" by blast
    then have "\<exists>k. py_int (drop 1 (suffix_of (name x))) = Some k"
      using py_int_decimal by metis
    with n show False by (simp add: chunk_key_def)
  qed
  with assms(1) show ?thesis by (auto simp: sorted_chunks_def)
qed

lemma recover_file_bad_key:
  assumes "endswith (name dp) ''.dir''"
    and "glob s dp (take (length (name dp) - 4) (name dp) @ ''.zip.*'') = Inr xs"
    and "x \<in> set xs" and "chunk_key x = None"
  shows "recover_file dec s dp ar v
           = Raise ValueError (say (Recovering (take (length (name dp) - 4) (name dp)) dp) s)"
proof -
  from assms(3,4) have "keyed xs = None" by (auto simp: keyed_None)
  with assms(1,2) show ?thesis by (simp add: recover_file_def Let_def sorted_chunks_def)
qed

subsection \<open>Chunk names and chunk counts\<close>

lemma chunk_path_inj: "chunk_path od z j = chunk_path od z k \<Longrightarrow> j = k"
  by (simp add: chunk_path_def child_def show_nat_inj)

lemma parent_chunk_path [simp]: "parent (chunk_path od z k) = od"
  by (simp add: chunk_path_def child_def parent_def)

lemma name_chunk_path [simp]: "name (chunk_path od z k) = z @ ''.'' @ show_nat k"
  by (simp add: chunk_path_def child_def name_def)

lemma chunk_path_neq_dir [simp]: "chunk_path od z k \<noteq> od"
  by (simp add: chunk_path_def child_def)

lemma ceil_step:
  assumes "0 < (n::nat)" and "0 < len"
  shows "(len + n - 1) div n = Suc ((len - n + n - 1) div n)"
proof (cases "n \<le> len")
  case True
  define m where "m = len - n + n - 1"
  from True assms have "len + n - 1 = m + n" by (simp add: m_def)
  moreover have "(m + n) div n = Suc (m div n)" using assms(1) by (simp add: div_add_self2)
  ultimately show ?thesis by (simp add: m_def)
next
  case False
  then have a: "len - n = 0" by simp
  from False assms have "n \<le> len + n - 1" "len + n - 1 < 2 * n" by simp_all
  then have "(len + n - 1) div n = 1"
    by (metis One_nat_def Suc_1 assms(1) div_nat_eqI mult.commute mult_Suc_right nat_mult_1_right)
  moreover have "(n - 1) div n = 0" using assms(1) by simp
  ultimately show ?thesis using a by simp
qed

lemma ceil_bounds:
  assumes "0 < (n::nat)"
  shows "len \<le> ((len + n - 1) div n) * n"
    and "0 < len \<Longrightarrow> ((len + n - 1) div n - 1) * n < len"
proof -
  let ?K = "(len + n - 1) div n"
  have m: "?K * n + (len + n - 1) mod n = len + n - 1" by simp
  have r: "(len + n - 1) mod n < n" using assms by simp
  from m r assms show "len \<le> ?K * n" by linarith
  assume p: "0 < len"
  then have "n \<le> len + n - 1" by simp
  then have k: "0 < ?K" using assms by (simp add: div_greater_zero_iff)
  then have "?K * n = (?K - 1) * n + n" by (cases ?K) simp_all
  with m p show "(?K - 1) * n < len" by linarith
qed

subsection \<open>What the chunk loop writes\<close>

lemma f_read_pos: "0 < n \<Longrightarrow> f_read (int n) rest = take n rest"
  by (simp add: f_read_def)

lemma drop_min_length: "drop (min (length rest) n) rest = drop n rest"
  by (cases "n \<le> length rest") (simp_all add: min_def)

lemma split_loop_writes:
  assumes "0 < n"
  shows "is_dir s od \<Longrightarrow> (\<forall>k. node_at s (chunk_path od z k) \<noteq> Some Dir) \<Longrightarrow>
     \<exists>s'. split_loop (int n) z od v rest j s = Ok s'
       \<and> (\<forall>i < (length rest + n - 1) div n.
             node_at s' (chunk_path od z (j + i)) = Some (File (take n (drop (i * n) rest))))
       \<and> (\<forall>q. (\<forall>i < (length rest + n - 1) div n. q \<noteq> chunk_path od z (j + i))
             \<longrightarrow> node_at s' q = node_at s q)"
proof (induction rest arbitrary: j s rule: length_induct)
  case (1 rest)
  show ?case
  proof (cases "rest = []")
    case True
    have "split_loop (int n) z od v [] j s = Ok s"
      by (subst split_loop.simps) (simp add: f_read_def)
    with True assms show ?thesis by simp
  next
    case False
    let ?c = "take n rest"
    let ?p = "chunk_path od z j"
    let ?s1 = "put ?p (File ?c) s"
    let ?s2 = "vsay v (Created_chunk ?p (length ?c)) ?s1"
    let ?rest = "drop n rest"
    from False assms have cne: "?c \<noteq> []" by simp
    from "1.prems" have w: "write_file s ?p ?c = Ok ?s1"
      by (simp add: write_file_Ok is_dir_def)
    have step: "split_loop (int n) z od v rest j s = split_loop (int n) z od v ?rest (j + 1) ?s2"
      using cne w assms
      by (subst split_loop.simps) (simp add: f_read_pos drop_min_length)
    have len: "length ?rest < length rest" using False assms by simp
    have "od \<noteq> ?p" using chunk_path_neq_dir [of od z j] by (rule not_sym)
    then have d2: "is_dir ?s2 od" using "1.prems"(1) by (simp add: is_dir_def)
    have nd2: "\<forall>k. node_at ?s2 (chunk_path od z k) \<noteq> Some Dir"
      using "1.prems"(2) by simp
    from "1.IH" len d2 nd2 obtain s' where
      r: "split_loop (int n) z od v ?rest (j + 1) ?s2 = Ok s'" and
      a: "\<forall>i < (length ?rest + n - 1) div n.
            node_at s' (chunk_path od z (j + 1 + i)) = Some (File (take n (drop (i * n) ?rest)))" and
      b: "\<forall>q. (\<forall>i < (length ?rest + n - 1) div n. q \<noteq> chunk_path od z (j + 1 + i))
            \<longrightarrow> node_at s' q = node_at ?s2 q"
      by blast
    from False have lpos: "0 < length rest" by simp
    have K: "(length rest + n - 1) div n = Suc ((length ?rest + n - 1) div n)"
      using ceil_step [OF assms lpos] by simp
    have first: "node_at s' ?p = Some (File ?c)"
    proof -
      have "\<forall>i < (length ?rest + n - 1) div n. ?p \<noteq> chunk_path od z (j + 1 + i)"
        using chunk_path_inj [of od z j] by fastforce
      with b have "node_at s' ?p = node_at ?s2 ?p" by blast
      then show ?thesis by simp
    qed
    have A: "\<forall>i < (length rest + n - 1) div n.
        node_at s' (chunk_path od z (j + i)) = Some (File (take n (drop (i * n) rest)))"
    proof (intro allI impI)
      fix i assume i: "i < (length rest + n - 1) div n"
      show "node_at s' (chunk_path od z (j + i)) = Some (File (take n (drop (i * n) rest)))"
      proof (cases i)
        case 0
        with first show ?thesis by simp
      next
        case (Suc i')
        with i K have "i' < (length ?rest + n - 1) div n" by simp
        with a have "node_at s' (chunk_path od z (j + 1 + i'))
            = Some (File (take n (drop (i' * n) ?rest)))" by blast
        moreover have "drop (i' * n) ?rest = drop (i * n) rest"
          using Suc by (simp add: add.commute)
        ultimately show ?thesis using Suc by simp
      qed
    qed
    have B: "\<forall>q. (\<forall>i < (length rest + n - 1) div n. q \<noteq> chunk_path od z (j + i))
        \<longrightarrow> node_at s' q = node_at s q"
    proof (intro allI impI)
      fix q assume q: "\<forall>i < (length rest + n - 1) div n. q \<noteq> chunk_path od z (j + i)"
      from q K have q0: "q \<noteq> ?p" by (metis add.right_neutral zero_less_Suc)
      have "\<forall>i < (length ?rest + n - 1) div n. q \<noteq> chunk_path od z (j + 1 + i)"
      proof (intro allI impI)
        fix i assume "i < (length ?rest + n - 1) div n"
        with K have "Suc i < (length rest + n - 1) div n" by simp
        with q have "q \<noteq> chunk_path od z (j + Suc i)" by blast
        then show "q \<noteq> chunk_path od z (j + 1 + i)" by simp
      qed
      with b have "node_at s' q = node_at ?s2 q" by blast
      with q0 show "node_at s' q = node_at s q" by simp
    qed
    from step r A B show ?thesis by simp
  qed
qed

lemma ceil_exact:
  assumes "0 < (n::nat)"
  shows "(m * n + n - 1) div n = m"
proof -
  from assms have "m * n + n - 1 = (n - 1) + m * n" by simp
  then have "(m * n + n - 1) div n = ((n - 1) + m * n) div n" by simp
  also have "\<dots> = (n - 1) div n + m" using assms by (simp only: div_mult_self1) 
  also have "\<dots> = m" using assms by simp
  finally show ?thesis .
qed

lemma chunk_lengths:
  assumes "0 < (n::nat)" and "K = (len + n - 1) div n"
  shows "1 \<le> k \<Longrightarrow> k < K \<Longrightarrow> k * n \<le> len"
    and "0 < K \<Longrightarrow> (K - 1) * n < len \<and> len \<le> (K - 1) * n + n"
proof -
  have le: "len \<le> K * n" using ceil_bounds(1) [OF assms(1), of len] assms(2) by simp
  {
    assume k: "0 < K"
    then have "0 < len" using assms by (cases "len = 0") simp_all
    then have lt: "(K - 1) * n < len" using ceil_bounds(2) [OF assms(1), of len] assms(2) by simp
    from k have "K * n = (K - 1) * n + n" by (cases K) simp_all
    with le lt have "(K - 1) * n < len \<and> len \<le> (K - 1) * n + n" by simp
  }
  note last = this
  show "0 < K \<Longrightarrow> (K - 1) * n < len \<and> len \<le> (K - 1) * n + n" by (rule last)
  assume "1 \<le> k" and kK: "k < K"
  then have "0 < K" by simp
  then have "(K - 1) * n < len" using last by blast
  moreover from kK have "k \<le> K - 1" by simp
  then have "k * n \<le> (K - 1) * n" by (rule mult_le_mono1)
  ultimately show "k * n \<le> len" by linarith
qed

subsection \<open>Sorting and concatenating the chunks\<close>

lemma read_file_put_other: "c \<noteq> p \<Longrightarrow> read_file (put p n s) c = read_file s c"
  by (simp add: read_file_def)

lemma map_read_file_put:
  "zp \<notin> set cs \<Longrightarrow> map (read_file (put zp n s)) cs = map (read_file s) cs"
  by (induction cs) (auto simp: read_file_put_other)

lemma concat_loop_result:
  assumes "map (read_file s) cs = map Inr ds" and "zp \<notin> set cs"
    and "node_at s zp = Some (File w)"
  shows "\<exists>s'. concat_loop s zp w cs v = Ok s' \<and> node_at s' zp = Some (File (w @ concat ds))
           \<and> (\<forall>q. q \<noteq> zp \<longrightarrow> node_at s' q = node_at s q)"
  using assms
proof (induction cs arbitrary: s w ds)
  case Nil
  then show ?case by simp
next
  case (Cons c cs)
  from Cons.prems(1) obtain d ds' where ds: "ds = d # ds'" and d: "read_file s c = Inr d"
    and rest: "map (read_file s) cs = map Inr ds'"
    by (cases ds) auto
  let ?s1 = "put zp (File (w @ d)) (vsay v (Concatenating (name c)) s)"
  from Cons.prems(2) have nz: "\<forall>x \<in> set cs. x \<noteq> zp" and cz: "c \<noteq> zp" by auto
  from Cons.prems(2) have z1: "zp \<notin> set cs" by simp
  from rest have r1: "map (read_file ?s1) cs = map Inr ds'"
    by (simp add: map_read_file_put [OF z1])
  have n1: "node_at ?s1 zp = Some (File (w @ d))" by simp
  from Cons.IH [OF r1 z1 n1] obtain s' where
    a: "concat_loop ?s1 zp (w @ d) cs v = Ok s'" and
    b: "node_at s' zp = Some (File ((w @ d) @ concat ds'))" and
    c: "\<forall>q. q \<noteq> zp \<longrightarrow> node_at s' q = node_at ?s1 q"
    by blast
  from a d have "concat_loop s zp w (c # cs) v = Ok s'" by simp
  moreover from b ds have "node_at s' zp = Some (File (w @ concat ds))" by simp
  moreover from c have "\<forall>q. q \<noteq> zp \<longrightarrow> node_at s' q = node_at s q" by simp
  ultimately show ?case by blast
qed

lemma concatenate_result:
  assumes "map (read_file s) cs = map Inr ds" and "zp \<notin> set cs"
    and "node_at s zp \<noteq> Some Dir" and "is_dir s (parent zp)"
  shows "\<exists>s'. concatenate s zp cs v = Ok s' \<and> node_at s' zp = Some (File (concat ds))
           \<and> (\<forall>q. q \<noteq> zp \<longrightarrow> node_at s' q = node_at s q)"
proof -
  let ?s1 = "put zp (File []) s"
  from assms(3,4) have w: "write_file s zp [] = Ok ?s1" by (simp add: write_file_Ok is_dir_def)
  from assms(1) have r1: "map (read_file ?s1) cs = map Inr ds"
    by (simp add: map_read_file_put [OF assms(2)])
  have n1: "node_at ?s1 zp = Some (File [])" by simp
  from concat_loop_result [OF r1 assms(2) n1, of v] obtain s' where
    "concat_loop ?s1 zp [] cs v = Ok s'" "node_at s' zp = Some (File ([] @ concat ds))"
    "\<forall>q. q \<noteq> zp \<longrightarrow> node_at s' q = node_at ?s1 q"
    by blast
  with w show ?thesis by (simp add: concatenate_def)
qed

lemma sorted_chunks_sorted:
  assumes "glob s dp (orig @ ''.zip.*'') = Inr xs" and "sorted_chunks s dp orig = Inr cs"
  shows "\<exists>ks. map chunk_key cs = map Some ks \<and> sorted ks \<and> mset cs = mset xs"
proof -
  from assms obtain kxs where k: "keyed xs = Some kxs" and cs: "cs = map snd (sort_key fst kxs)"
    by (auto simp: sorted_chunks_def split: option.splits)
  from keyed_Some [OF k] have sn: "map snd kxs = xs"
    and ck: "\<forall>(k, x) \<in> set kxs. chunk_key x = Some k" by simp_all
  let ?ks = "map fst (sort_key fst kxs)"
  have "map chunk_key cs = map Some ?ks"
    unfolding cs using ck by (auto simp: map_eq_conv)
  moreover have "sorted ?ks" by (rule sorted_sort_key)
  moreover have "mset cs = mset xs"
  proof -
    have "mset cs = image_mset snd (mset (sort_key fst kxs))" by (simp add: cs)
    also have "\<dots> = image_mset snd (mset kxs)" by simp
    also have "\<dots> = mset (map snd kxs)" by simp
    finally show ?thesis by (simp add: sn)
  qed
  ultimately show ?thesis by blast
qed

lemma glob_parent: "glob s d pat = Inr xs \<Longrightarrow> x \<in> set xs \<Longrightarrow> x \<noteq> [] \<and> parent x = d"
  by (auto simp: glob_def listdir_def split: if_splits)

lemma container_not_a_chunk:
  assumes "glob s dp pat = Inr xs" and "mset cs = mset xs" and "dp \<noteq> []"
  shows "child (parent dp) z \<notin> set cs"
proof
  assume "child (parent dp) z \<in> set cs"
  with assms(2) have "child (parent dp) z \<in> set xs" by (metis set_mset_mset)
  with assms(1) have "parent (child (parent dp) z) = dp" using glob_parent by blast
  then have "butlast dp = dp" by (simp add: child_def parent_def)
  with assms(3) show False by (cases dp rule: rev_cases) simp_all
qed

lemma read_file_file_bytes:
  "\<forall>x \<in> set cs. \<exists>d. node_at s x = Some (File d) \<Longrightarrow>
     map (read_file s) cs = map Inr (map (file_bytes s) cs)"
  by (induction cs) (auto simp: read_file_def file_bytes_def)

lemma chunk_key_10: "chunk_key [''f.dir'', ''f.zip.10''] = Some 10"
  by (simp add: chunk_key_def name_def suffix_of_def rfind_dot_def py_int_def strip_def
      is_space_def parse_number_def digit_val_def)

lemma sorted_chunks_numeric_order_tree:
  "sorted_chunks numeric_order_tree [''f.dir''] ''f''
     = Inr [[''f.dir'', ''f.zip.1''], [''f.dir'', ''f.zip.2''], [''f.dir'', ''f.zip.10'']]"
  by (simp add: sorted_chunks_def glob_def numeric_order_tree_def is_dir_def node_at_def
      listdir_def parent_def name_def chunk_key_1 chunk_key_2 chunk_key_10)

subsection \<open>A listing without repeated entries stays one\<close>

lemma distinct_put: "distinct (map fst (files s)) \<Longrightarrow> distinct (map fst (files (put p n s)))"
  by (simp add: distinct_update)

lemma write_file_distinct:
  "write_file s p d = Ok s' \<Longrightarrow> distinct (map fst (files s)) \<Longrightarrow> distinct (map fst (files s'))"
  by (auto simp: write_file_Ok distinct_update)

lemma mkdir_distinct:
  "mkdir_exist_ok s p = Ok s' \<Longrightarrow> distinct (map fst (files s)) \<Longrightarrow> distinct (map fst (files s'))"
  by (auto simp: mkdir_Ok distinct_update)

lemma unlink_distinct:
  "unlink s p = Ok s' \<Longrightarrow> distinct (map fst (files s)) \<Longrightarrow> distinct (map fst (files s'))"
  by (auto simp: unlink_Ok distinct_delete)

lemma zip_write_distinct:
  "zip_write enc s zp fp a = Ok s' \<Longrightarrow> distinct (map fst (files s)) \<Longrightarrow>
     distinct (map fst (files s'))"
  by (auto simp: zip_write_def and_then_eq_Ok write_file_Ok distinct_update
      split: sum.splits outcome.splits)

lemma split_loop_distinct:
  "split_loop n z od v rest k s = Ok s' \<Longrightarrow> distinct (map fst (files s)) \<Longrightarrow>
     distinct (map fst (files s'))"
proof (induction n z od v rest k s rule: split_loop.induct)
  case (1 n z od v rest k s)
  show ?case
  proof (cases "f_read n rest = []")
    case True
    with "1.prems" show ?thesis by (simp add: split_loop.simps [of n z od v rest k s])
  next
    case False
    from "1.prems"(1) False obtain s1 where
      w: "write_file s (chunk_path od z k) (f_read n rest) = Ok s1" and
      r: "split_loop n z od v (drop (length (f_read n rest)) rest) (k + 1)
            (vsay v (Created_chunk (chunk_path od z k) (length (f_read n rest))) s1) = Ok s'"
      by (simp add: split_loop.simps [of n z od v rest k s] split: outcome.splits)
    from w "1.prems"(2) have "distinct (map fst (files s1))" by (rule write_file_distinct)
    then have "distinct (map fst (files
        (vsay v (Created_chunk (chunk_path od z k) (length (f_read n rest))) s1)))" by simp
    with "1.IH" [OF False w r] show ?thesis .
  qed
qed

lemma split_file_distinct:
  "split_file s zp od n v = Ok s' \<Longrightarrow> distinct (map fst (files s)) \<Longrightarrow>
     distinct (map fst (files s'))"
  by (auto simp: split_file_def split: sum.splits dest: split_loop_distinct)

lemma files_eq_of_node_at_eq_verbose:
  "(if v then (case st_size s2 zp of Inl e \<Rightarrow> Raise e s2
             | Inr k \<Rightarrow> Ok (say (m k) s2)) else Ok s2) = Ok s3 \<Longrightarrow> files s3 = files s2"
  by (auto split: if_splits sum.splits)

lemma compress_and_split_distinct:
  assumes "st_size s fp = Inr n" and "MAX_SIZE < n"
    and "compress_and_split enc s fp ar v = Ok s'" and "distinct (map fst (files s))"
  shows "distinct (map fst (files s'))"
proof -
  let ?dir = "child (parent fp) (name fp @ ''.dir'')"
  let ?zip = "child (parent fp) (name fp @ ''.zip'')"
  from assms(1-3) obtain s1 s2 s3 s4 s5 where
    st1: "mkdir_exist_ok (say (Processing fp n) s) ?dir = Ok s1" and
    st2: "zip_write enc (vsay v (Created_directory ?dir) s1) ?zip fp (name fp) = Ok s2" and
    st3: "(if v then (case st_size s2 ?zip of Inl e \<Rightarrow> Raise e s2
                    | Inr k \<Rightarrow> Ok (say (Compressed_to ?zip k) s2)) else Ok s2) = Ok s3" and
    st4: "split_file s3 ?zip ?dir CHUNK_SIZE v = Ok s4" and
    st5: "unlink s4 ?zip = Ok s5" and
    st6: "(if ar then
           and_then (unlink (vsay v (Removed_temporary_zip ?zip) s5) fp) (\<lambda>s6.
             Ok (vsay v (Removed_original_file fp) s6))
         else Ok (vsay v (Removed_temporary_zip ?zip) s5)) = Ok s'"
    by (simp add: compress_and_split_def Let_def and_then_eq_Ok) blast
  from assms(4) have "distinct (map fst (files (say (Processing fp n) s)))" by simp
  with st1 have "distinct (map fst (files s1))" by (rule mkdir_distinct)
  then have "distinct (map fst (files (vsay v (Created_directory ?dir) s1)))" by simp
  with st2 have "distinct (map fst (files s2))" by (rule zip_write_distinct)
  with files_eq_of_node_at_eq_verbose [OF st3] have "distinct (map fst (files s3))" by simp
  with st4 have "distinct (map fst (files s4))" by (rule split_file_distinct)
  with st5 have d5: "distinct (map fst (files s5))" by (rule unlink_distinct)
  show ?thesis
  proof (cases ar)
    case False
    with st6 d5 show ?thesis by auto
  next
    case True
    with st6 obtain s6 where u: "unlink (vsay v (Removed_temporary_zip ?zip) s5) fp = Ok s6"
      and e: "s' = vsay v (Removed_original_file fp) s6"
      by (auto simp: and_then_eq_Ok)
    from d5 have "distinct (map fst (files (vsay v (Removed_temporary_zip ?zip) s5)))" by simp
    with u have "distinct (map fst (files s6))" by (rule unlink_distinct)
    with e show ?thesis by simp
  qed
qed

subsection \<open>A split that goes through\<close>

lemma name_child [simp]: "name (child d n) = n"
  by (simp add: name_def child_def)

lemma parent_child [simp]: "parent (child d n) = d"
  by (simp add: parent_def child_def)

lemma child_parent_name: "p \<noteq> [] \<Longrightarrow> child (parent p) (name p) = p"
  by (simp add: child_def parent_def name_def)

lemma parent_neq_child [simp]: "parent p \<noteq> child (parent p) n"
  by (metis length_append_singleton child_def n_not_Suc_n parent_def length_butlast
      diff_Suc_1 parent_child)

lemma split_run:
  assumes f: "node_at s fp = Some (File c)" and big: "MAX_SIZE < length c"
    and ne: "fp \<noteq> []"
    and pd: "is_dir s (parent fp)"
    and d: "\<forall>x. node_at s (child (parent fp) (name fp @ ''.dir'')) \<noteq> Some (File x)"
    and z: "node_at s (child (parent fp) (name fp @ ''.zip'')) \<noteq> Some Dir"
    and ch: "\<forall>k. node_at s (chunk_path (child (parent fp) (name fp @ ''.dir''))
                          (name fp @ ''.zip'') k) \<noteq> Some Dir"
  shows "\<exists>s'. compress_and_split enc s fp ar v = Ok s'
     \<and> node_at s' fp = (if ar then None else Some (File c))
     \<and> node_at s' (child (parent fp) (name fp @ ''.dir'')) = Some Dir
     \<and> node_at s' (child (parent fp) (name fp @ ''.zip'')) = None
     \<and> (\<forall>i < (length (enc [(name fp, c)]) + 1048576 - 1) div 1048576.
           node_at s' (chunk_path (child (parent fp) (name fp @ ''.dir''))
                         (name fp @ ''.zip'') (1 + i))
             = Some (File (take 1048576 (drop (i * 1048576) (enc [(name fp, c)])))))
     \<and> (\<forall>q. q \<noteq> fp \<and> q \<noteq> child (parent fp) (name fp @ ''.dir'')
             \<and> q \<noteq> child (parent fp) (name fp @ ''.zip'')
             \<and> (\<forall>i < (length (enc [(name fp, c)]) + 1048576 - 1) div 1048576.
                   q \<noteq> chunk_path (child (parent fp) (name fp @ ''.dir''))
                          (name fp @ ''.zip'') (1 + i))
           \<longrightarrow> node_at s' q = node_at s q)"
proof -
  let ?dir = "child (parent fp) (name fp @ ''.dir'')"
  let ?zip = "child (parent fp) (name fp @ ''.zip'')"
  let ?zn = "name fp @ ''.zip''"
  let ?data = "enc [(name fp, c)]"
  let ?K = "(length ?data + 1048576 - 1) div 1048576"
  have dz: "?dir \<noteq> ?zip" by (simp add: child_def)
  have fd: "fp \<noteq> ?dir" using sibling_neq [of "''.dir''" fp] by auto
  have fz: "fp \<noteq> ?zip" using sibling_neq [of "''.zip''" fp] by auto
  have pdir: "parent fp \<noteq> ?dir" by simp
  have pzip: "parent fp \<noteq> ?zip" by simp
  have sz: "st_size s fp = Inr (length c)" using f by (simp add: st_size_def)
  let ?s0 = "say (Processing fp (length c)) s"
  define s1 where "s1 = (if node_at s ?dir = Some Dir then ?s0 else put ?dir Dir ?s0)"
  have st1: "mkdir_exist_ok ?s0 ?dir = Ok s1"
  proof (cases "node_at s ?dir")
    case None
    with pd show ?thesis by (simp add: mkdir_Ok s1_def is_dir_def)
  next
    case (Some a)
    with d have "a = Dir" by (cases a) auto
    with Some show ?thesis by (simp add: mkdir_Ok s1_def)
  qed
  have n1: "node_at s1 q = (if q = ?dir then Some Dir else node_at s q)" for q
    by (simp add: s1_def)
  let ?s1' = "vsay v (Created_directory ?dir) s1"
  let ?s2a = "put ?zip (File []) ?s1'"
  let ?s2 = "put ?zip (File ?data) ?s2a"
  have w1: "write_file ?s1' ?zip [] = Ok ?s2a"
    using z pd dz pzip by (simp add: write_file_Ok n1 is_dir_def)
  have r1: "read_file ?s2a fp = Inr c"
    using f fd fz by (simp add: read_file_def n1)
  have w2: "write_file ?s2a ?zip ?data = Ok ?s2"
    using pd pzip pdir by (simp add: write_file_Ok n1 is_dir_def)
  have st2: "zip_write enc ?s1' ?zip fp (name fp) = Ok ?s2"
    by (simp add: zip_write_def w1 r1 w2)
  have n2: "node_at ?s2 q = (if q = ?zip then Some (File ?data)
                            else if q = ?dir then Some Dir else node_at s q)" for q
    by (simp add: n1)
  define s3 where "s3 = (if v then say (Compressed_to ?zip (length ?data)) ?s2 else ?s2)"
  have st3: "(if v then (case st_size ?s2 ?zip of Inl e \<Rightarrow> Raise e ?s2
                    | Inr k \<Rightarrow> Ok (say (Compressed_to ?zip k) ?s2)) else Ok ?s2) = Ok s3"
    by (simp add: s3_def st_size_def)
  have n3: "node_at s3 = node_at ?s2" by (simp add: s3_def)
  have d3: "is_dir s3 ?dir" using dz by (simp add: is_dir_def n3 n2 n1)
  have c3: "\<forall>k. node_at s3 (chunk_path ?dir ?zn k) \<noteq> Some Dir"
    using ch by (simp add: n3 n2 n1 chunk_path_neq_sibling)
  from split_loop_writes [of 1048576 s3 ?dir ?zn v ?data 1, OF _ d3 c3] obtain s4 where
    r: "split_loop (int 1048576) ?zn ?dir v ?data 1 s3 = Ok s4" and
    a: "\<forall>i < ?K. node_at s4 (chunk_path ?dir ?zn (1 + i))
          = Some (File (take 1048576 (drop (i * 1048576) ?data)))" and
    b: "\<forall>q. (\<forall>i < ?K. q \<noteq> chunk_path ?dir ?zn (1 + i)) \<longrightarrow> node_at s4 q = node_at s3 q"
    by auto
  have st4: "split_file s3 ?zip ?dir CHUNK_SIZE v = Ok s4"
    using r by (simp add: split_file_def read_file_def n3 n2 n1 CHUNK_SIZE_def)
  have z4: "node_at s4 ?zip = Some (File ?data)"
    using b [rule_format, of ?zip] chunk_path_neq_sibling [of "parent fp" "name fp @ ''.dir''"]
    by (metis n2 n3)
  have f4: "node_at s4 fp = Some (File c)"
    using b [rule_format, of fp] chunk_path_neq_self [of fp] fd fz f
    by (metis n2 n3)
  define s5 where "s5 = s4\<lparr>files := AList.delete ?zip (files s4)\<rparr>"
  have st5: "unlink s4 ?zip = Ok s5" using z4 by (simp add: unlink_Ok s5_def)
  have n5: "node_at s5 q = (if q = ?zip then None else node_at s4 q)" for q
    by (simp add: s5_def)
  let ?s5' = "vsay v (Removed_temporary_zip ?zip) s5"
  define s6 where "s6 = ?s5'\<lparr>files := AList.delete fp (files ?s5')\<rparr>"
  have st6: "unlink ?s5' fp = Ok s6" using f4 fz by (simp add: unlink_Ok s6_def n5)
  have n6: "node_at s6 q = (if q = fp then None else node_at s5 q)" for q
  proof -
    have "node_at s6 q = (if q = fp then None else node_at ?s5' q)"
      unfolding s6_def by (rule node_at_delete)
    then show ?thesis by simp
  qed
  define s' where "s' = (if ar then vsay v (Removed_original_file fp) s6 else ?s5')"
  have run: "compress_and_split enc s fp ar v = Ok s'"
    using big by (simp add: compress_and_split_def sz Let_def st1 st2 st3 st4 st5 st6 s'_def)
  have n': "node_at s' q = (if ar \<and> q = fp then None else node_at s5 q)" for q
    by (simp add: s'_def n6)
  have 1: "node_at s' fp = (if ar then None else Some (File c))"
    using f4 fz by (simp add: n' n5)
  have dd: "\<forall>i < ?K. ?dir \<noteq> chunk_path ?dir ?zn (1 + i)"
    using chunk_path_neq_dir [of ?dir ?zn] by (metis)
  have 2: "node_at s' ?dir = Some Dir"
    using b [rule_format, of ?dir] dd fd dz by (simp add: n' n5 n3 n2 n1)
  have 3: "node_at s' ?zip = None" by (simp add: n' n5)
  have 4: "\<forall>i < ?K. node_at s' (chunk_path ?dir ?zn (1 + i))
          = Some (File (take 1048576 (drop (i * 1048576) ?data)))"
    using a chunk_path_neq_self [of fp] chunk_path_neq_sibling [of "parent fp" "name fp @ ''.dir''"]
    by (simp add: n' n5)
  have 5: "\<forall>q. q \<noteq> fp \<and> q \<noteq> ?dir \<and> q \<noteq> ?zip \<and> (\<forall>i < ?K. q \<noteq> chunk_path ?dir ?zn (1 + i))
           \<longrightarrow> node_at s' q = node_at s q"
    using b by (simp add: n' n5 n3 n2 n1)
  from run 1 2 3 4 5 show ?thesis by blast
qed

subsection \<open>The chunks of a split, seen by the glob and by the sort\<close>

lemma fnmatch_prefix: "fnmatch q n \<Longrightarrow> fnmatch (p @ q) (p @ n)"
  by (induction p) auto

lemma chunk_name_matches: "fnmatch (nm @ ''.zip.*'') ((nm @ ''.zip'') @ ''.'' @ show_nat k)"
proof -
  have "fnmatch ''.zip.*'' (''.zip.'' @ show_nat k)"
    using fnmatch_star [of "show_nat k"] by simp
  from fnmatch_prefix [OF this, of nm] show ?thesis by simp
qed

lemma no_double_star:
  "CHR ''*'' \<notin> set p \<Longrightarrow> \<not> has_double_star (p @ ''.zip.*'')"
proof (induction p)
  case Nil
  show ?case by simp
next
  case (Cons a p)
  obtain b cs where e: "p @ ''.zip.*'' = b # cs" by (cases "p @ ''.zip.*''") auto
  from Cons have "\<not> has_double_star (b # cs)" by (simp add: e)
  with Cons.prems show ?case by (auto simp: e)
qed

lemma rfind_dot_numeral:
  assumes "\<forall>c \<in> set ds. decimal_digit c"
  shows "rfind_dot (z @ CHR ''.'' # ds) = Some (length z)"
proof -
  from assms have "\<forall>c \<in> set (rev ds). c \<noteq> CHR ''.''" using digit_plain by auto
  then have "takeWhile (\<lambda>c. c \<noteq> CHR ''.'') (rev ds @ CHR ''.'' # rev z) = rev ds"
    by (simp add: takeWhile_append2 takeWhile_tail)
  then show ?thesis by (simp add: rfind_dot_def Let_def)
qed

lemma suffix_of_chunk_name:
  "z \<noteq> [] \<Longrightarrow> suffix_of (z @ CHR ''.'' # show_nat k) = CHR ''.'' # show_nat k"
  using show_nat_nonempty [of k]
  by (simp add: suffix_of_def rfind_dot_numeral [OF show_nat_digits])

lemma chunk_key_chunk_path: "z \<noteq> [] \<Longrightarrow> chunk_key (chunk_path od z k) = Some (int k)"
  by (simp add: chunk_key_def suffix_of_chunk_name py_int_show_nat)

lemma keyed_chunk_paths:
  "z \<noteq> [] \<Longrightarrow> keyed (map (chunk_path od z) ks) = Some (map (\<lambda>k. (int k, chunk_path od z k)) ks)"
  by (induction ks) (simp_all add: chunk_key_chunk_path)

lemma concat_slices_take:
  "concat (map (\<lambda>i. take n (drop (i * n) xs)) [0..<m]) = take (m * n) xs"
proof (induction m)
  case 0
  show ?case by simp
next
  case (Suc m)
  have "take (m * n + n) xs = take (m * n) xs @ take n (drop (m * n) xs)"
    by (rule take_add)
  moreover have "Suc m * n = m * n + n" by simp
  ultimately have "take (Suc m * n) xs = take (m * n) xs @ take n (drop (m * n) xs)"
    by (simp only:)
  with Suc show ?case by (simp del: mult_Suc)
qed

lemma concat_slices:
  assumes "0 < n"
  shows "concat (map (\<lambda>i. take n (drop (i * n) xs)) [0..<(length xs + n - 1) div n]) = xs"
  using ceil_bounds(1) [OF assms, of "length xs"] by (simp add: concat_slices_take)

lemma glob_after_split:
  assumes dir: "is_dir t dir" and dist: "distinct (map fst (files t))"
    and br: "CHR ''['' \<notin> set nm" and star: "CHR ''*'' \<notin> set nm"
    and there: "\<forall>i < K. node_at t (chunk_path dir (nm @ ''.zip'') (1 + i)) \<noteq> None"
    and only: "\<forall>q. q \<noteq> [] \<and> parent q = dir \<and> node_at t q \<noteq> None
                   \<and> fnmatch (nm @ ''.zip.*'') (name q)
                 \<longrightarrow> (\<exists>i < K. q = chunk_path dir (nm @ ''.zip'') (1 + i))"
  shows "\<exists>xs. glob t dir (nm @ ''.zip.*'') = Inr xs \<and> distinct xs
           \<and> set xs = (\<lambda>i. chunk_path dir (nm @ ''.zip'') (1 + i)) ` {..<K}"
proof -
  let ?pat = "nm @ ''.zip.*''"
  let ?xs = "filter (\<lambda>p. fnmatch ?pat (name p)) (listdir t dir)"
  from br have "CHR ''['' \<notin> set ?pat" by simp
  with no_double_star [OF star] dir have g: "glob t dir ?pat = Inr ?xs"
    by (simp add: glob_def)
  from dist have d: "distinct ?xs" by (simp add: listdir_def)
  have mem: "q \<in> set (map fst (files t)) \<longleftrightarrow> node_at t q \<noteq> None" for q
    by (simp add: node_at_def map_of_eq_None_iff)
  have "set ?xs = (\<lambda>i. chunk_path dir (nm @ ''.zip'') (1 + i)) ` {..<K}"
  proof (intro equalityI subsetI)
    fix q assume "q \<in> set ?xs"
    then have "q \<noteq> [] \<and> parent q = dir \<and> node_at t q \<noteq> None \<and> fnmatch ?pat (name q)"
      using mem by (auto simp: listdir_def)
    with only obtain i where "i < K" "q = chunk_path dir (nm @ ''.zip'') (1 + i)" by blast
    then show "q \<in> (\<lambda>i. chunk_path dir (nm @ ''.zip'') (1 + i)) ` {..<K}" by blast
  next
    fix q assume "q \<in> (\<lambda>i. chunk_path dir (nm @ ''.zip'') (1 + i)) ` {..<K}"
    then obtain i where i: "i < K" and q: "q = chunk_path dir (nm @ ''.zip'') (1 + i)" by blast
    from there i q have "node_at t q \<noteq> None" by blast
    then have "q \<in> set (map fst (files t))" using mem by blast
    moreover have "q \<noteq> []" by (simp add: q chunk_path_def child_def)
    moreover have "parent q = dir" by (simp add: q)
    moreover have "fnmatch ?pat (name q)"
      unfolding q name_chunk_path by (rule chunk_name_matches)
    ultimately show "q \<in> set ?xs" by (simp add: listdir_def)
  qed
  with g d show ?thesis by blast
qed

lemma sorted_chunks_of_split:
  assumes g: "glob t dir (nm @ ''.zip.*'') = Inr xs" and dx: "distinct xs"
    and sx: "set xs = (\<lambda>i. chunk_path dir z (1 + i)) ` {..<K}" and z: "z \<noteq> []"
  shows "sorted_chunks t dir nm = Inr (map (\<lambda>i. chunk_path dir z (1 + i)) [0..<K])"
proof -
  have key: "chunk_key x = Some (int (1 + i))" if "x = chunk_path dir z (1 + i)" for x i
    using that z by (simp add: chunk_key_chunk_path)
  have "keyed xs \<noteq> None"
  proof
    assume "keyed xs = None"
    then obtain x where "x \<in> set xs" "chunk_key x = None" by (auto simp: keyed_None)
    with sx key show False by force
  qed
  then obtain kxs where k: "keyed xs = Some kxs" by blast
  from keyed_Some [OF k] have sn: "map snd kxs = xs"
    and ck: "\<forall>(k, x) \<in> set kxs. chunk_key x = Some k" by simp_all
  let ?ys = "sort_key fst kxs"
  let ?want = "map (\<lambda>i. int (1 + i)) [0..<K]"
  have pair: "p = (int (1 + i), chunk_path dir z (1 + i))"
    if "p \<in> set kxs" "snd p = chunk_path dir z (1 + i)" for p i
  proof -
    from that(1) ck have "chunk_key (snd p) = Some (fst p)" by (cases p) auto
    with that(2) key have "fst p = int (1 + i)" by simp
    with that(2) show ?thesis by (cases p) simp
  qed
  have el: "\<exists>i < K. p = (int (1 + i), chunk_path dir z (1 + i))" if "p \<in> set kxs" for p
  proof -
    from that have "snd p \<in> set (map snd kxs)" by simp
    with sn sx obtain i where "i < K" "snd p = chunk_path dir z (1 + i)" by auto
    with pair [OF that] show ?thesis by blast
  qed
  have inj: "inj_on snd (set kxs)"
  proof (rule inj_onI)
    fix p q assume p: "p \<in> set kxs" and q: "q \<in> set kxs" and e: "snd p = snd q"
    from el [OF p] obtain i where "p = (int (1 + i), chunk_path dir z (1 + i))" by blast
    moreover with e pair [OF q, of i] have "q = (int (1 + i), chunk_path dir z (1 + i))" by simp
    ultimately show "p = q" by simp
  qed
  from dx sn have dk: "distinct kxs" by (metis distinct_map)
  have injf: "inj_on fst (set kxs)"
  proof (rule inj_onI)
    fix p q assume p: "p \<in> set kxs" and q: "q \<in> set kxs" and e: "fst p = fst q"
    from el [OF p] obtain i where pi: "p = (int (1 + i), chunk_path dir z (1 + i))" by blast
    from el [OF q] obtain j where qj: "q = (int (1 + j), chunk_path dir z (1 + j))" by blast
    from e pi qj have "i = j" by simp
    with pi qj show "p = q" by simp
  qed
  have "distinct (map fst kxs)" using dk injf by (simp add: distinct_map)
  then have d1: "distinct (map fst ?ys)"
    by (metis distinct_map distinct_sort set_sort distinct_map mset_sort mset_map mset_eq_imp_distinct_iff)
  have s1: "sorted (map fst ?ys)" by (rule sorted_sort_key)
  have set1: "set (map fst ?ys) = set ?want"
  proof -
    have "set (map fst ?ys) = fst ` set kxs" by simp
    also have "\<dots> = (\<lambda>i. int (1 + i)) ` {..<K}"
    proof (intro equalityI subsetI)
      fix k assume "k \<in> fst ` set kxs"
      then obtain p where p: "p \<in> set kxs" and "k = fst p" by blast
      with el [OF p] show "k \<in> (\<lambda>i. int (1 + i)) ` {..<K}" by auto
    next
      fix k assume "k \<in> (\<lambda>i. int (1 + i)) ` {..<K}"
      then obtain i where i: "i < K" and ke: "k = int (1 + i)" by blast
      from i sx have "chunk_path dir z (1 + i) \<in> set (map snd kxs)" unfolding sn by blast
      then obtain p where p: "p \<in> set kxs" and "snd p = chunk_path dir z (1 + i)" by auto
      with pair have "p = (int (1 + i), chunk_path dir z (1 + i))" by blast
      with p ke show "k \<in> fst ` set kxs" by force
    qed
    also have "\<dots> = set ?want" by (simp add: lessThan_atLeast0)
    finally show ?thesis .
  qed
  have s2: "sorted ?want" by (simp add: sorted_map strict_sorted_iff [symmetric] sorted_wrt_iff_nth_less)
  have d2: "distinct ?want" by (simp add: distinct_map inj_on_def)
  from s1 d1 s2 d2 set1 have fs: "map fst ?ys = ?want" by (rule sorted_distinct_set_unique)
  have "map snd ?ys = map (\<lambda>k. chunk_path dir z (nat k)) (map fst ?ys)"
  proof -
    have "snd p = chunk_path dir z (nat (fst p))" if "p \<in> set ?ys" for p
    proof -
      from that have "p \<in> set kxs" by simp
      from el [OF this] obtain i where "p = (int (1 + i), chunk_path dir z (1 + i))" by blast
      then have "fst p = int (1 + i)" "snd p = chunk_path dir z (1 + i)" by simp_all
      then show ?thesis by (simp only: nat_int)
    qed
    then show ?thesis by (simp add: map_eq_conv)
  qed
  also have "\<dots> = map (\<lambda>i. chunk_path dir z (1 + i)) [0..<K]"
    unfolding fs map_map comp_def nat_int ..
  finally show ?thesis using g k by (simp add: sorted_chunks_def)
qed

subsection \<open>A recovery that goes through\<close>

lemma split_slash_plain: "CHR ''/'' \<notin> set n \<Longrightarrow> split_slash n = [n]"
  by (induction n) auto

lemma member_segments_plain:
  "CHR ''/'' \<notin> set n \<Longrightarrow> n \<noteq> [] \<Longrightarrow> n \<noteq> ''.'' \<Longrightarrow> n \<noteq> ''..'' \<Longrightarrow> member_segments n = [n]"
  by (simp add: member_segments_def split_slash_plain)

lemma endswith_slash: "endswith n ''/'' \<Longrightarrow> CHR ''/'' \<in> set n"
proof -
  assume "endswith n ''/''"
  then have "drop (length n - 1) n = ''/''" by (simp add: endswith_def)
  then have "CHR ''/'' \<in> set (drop (length n - 1) n)" by simp
  then show ?thesis by (rule in_set_dropD)
qed

lemma endswith_dir_suffix: "endswith (nm @ ''.dir'') ''.dir''"
  by (simp add: endswith_def)

lemma recover_run:
  assumes sc: "sorted_chunks t (child P (nm @ ''.dir'')) nm = Inr cs" and cne: "cs \<noteq> []"
    and rd: "map (read_file t) cs = map Inr ds"
    and nz: "child P (nm @ ''.zip'') \<notin> set cs"
    and zt: "node_at t (child P (nm @ ''.zip'')) \<noteq> Some Dir"
    and pd: "is_dir t P" and dd: "is_dir t (child P (nm @ ''.dir''))"
    and dec: "dec (concat ds) = Some [(nm, c)]"
    and seg: "member_segments nm = [nm]" and nsl: "\<not> endswith nm ''/''"
    and ft: "node_at t (child P nm) \<noteq> Some Dir"
  shows "\<exists>t'. recover_file dec t (child P (nm @ ''.dir'')) ar v = Ok t'
           \<and> node_at t' (child P nm) = Some (File c)
           \<and> node_at t' (child P (nm @ ''.zip'')) = None
           \<and> node_at t' (child P (nm @ ''.dir'')) = (if ar then None else Some Dir)"
proof -
  let ?dp = "child P (nm @ ''.dir'')"
  let ?zip = "child P (nm @ ''.zip'')"
  let ?fp = "child P nm"
  let ?s0 = "say (Recovering nm ?dp) t"
  have fz: "?fp \<noteq> ?zip" and fd: "?fp \<noteq> ?dp" and dz: "?dp \<noteq> ?zip"
    by (simp_all add: child_def)
  have pz: "P \<noteq> ?zip" and pf: "P \<noteq> ?fp" by (simp_all add: child_def)
  have rd0: "map (read_file ?s0) cs = map Inr ds" using rd by simp
  have zt0: "node_at ?s0 ?zip \<noteq> Some Dir" using zt by simp
  have pd0: "is_dir ?s0 (parent ?zip)" using pd by simp
  from concatenate_result [OF rd0 nz zt0 pd0, of v] obtain s1 where
    st1: "concatenate ?s0 ?zip cs v = Ok s1" and
    z1: "node_at s1 ?zip = Some (File (concat ds))" and
    o1: "\<forall>q. q \<noteq> ?zip \<longrightarrow> node_at s1 q = node_at t q"
    by auto
  define s2 where "s2 = (if v then say (Created ?zip (length (concat ds))) s1 else s1)"
  have st2: "(if v then (case st_size s1 ?zip of Inl e \<Rightarrow> Raise e s1
                    | Inr n \<Rightarrow> Ok (say (Created ?zip n) s1)) else Ok s1) = Ok s2"
    by (simp add: s2_def st_size_def z1)
  have n2: "node_at s2 = node_at s1" by (simp add: s2_def)
  let ?s3 = "put ?fp (File c) s2"
  have p2: "node_at s2 P = Some Dir" using pd pz o1 by (simp add: n2 is_dir_def)
  have f2: "node_at s2 ?fp \<noteq> Some Dir" using ft fz o1 by (simp add: n2)
  have ex: "extract_member s2 P (nm, c) = Ok ?s3"
    using p2 f2 nsl by (simp add: extract_member_def seg exists_path_def write_file_Ok child_def
        parent_def Let_def)
  have st3: "zip_extract dec s2 ?zip P = Ok ?s3"
    by (simp add: zip_extract_def read_file_def n2 z1 dec ex)
  let ?s3' = "vsay v (Extracted_to ?fp) ?s3"
  define s4 where "s4 = ?s3'\<lparr>files := AList.delete ?zip (files ?s3')\<rparr>"
  have z3: "node_at ?s3' ?zip = Some (File (concat ds))" using fz z1 by (simp add: n2)
  have st4: "unlink ?s3' ?zip = Ok s4" using z3 by (simp only: unlink_Ok s4_def) simp
  have n4: "node_at s4 q = (if q = ?zip then None else node_at ?s3' q)" for q
    unfolding s4_def by (rule node_at_delete)
  have n4': "node_at s4 q = (if q = ?zip then None else if q = ?fp then Some (File c)
                            else node_at t q)" for q
    using o1 by (simp add: n4 n2)
  let ?s4' = "vsay v (Removed_temporary_zip ?zip) s4"
  define s5 where "s5 = ?s4'\<lparr>files := filter (\<lambda>(q, _). \<not> is_prefix ?dp q) (files ?s4')\<rparr>"
  have d4: "node_at ?s4' ?dp = Some Dir" using dd dz fd by (simp add: n4' is_dir_def)
  have st5: "rmtree ?s4' ?dp = Ok s5" using d4 by (simp only: rmtree_Ok s5_def)
  have n5: "node_at s5 q = (if is_prefix ?dp q then None else node_at ?s4' q)" for q
    unfolding s5_def by (rule node_at_rmtree)
  have npf: "\<not> is_prefix ?dp ?fp" by (simp add: is_prefix_def child_def)
  define t' where "t' = (if ar then vsay v (Removed_directory ?dp) s5 else ?s4')"
  have run: "recover_file dec t ?dp ar v = Ok t'"
    using cne
    by (simp add: recover_file_def endswith_dir_suffix Let_def sc st1 st2 st3 st4 st5 t'_def)
  have 1: "node_at t' ?fp = Some (File c)" using fz npf by (simp add: t'_def n5 n4')
  have 2: "node_at t' ?zip = None" by (simp add: t'_def n5 n4')
  have 3: "node_at t' ?dp = (if ar then None else Some Dir)"
    using d4 by (simp add: t'_def n5)
  from run 1 2 3 show ?thesis by blast
qed

subsection \<open>Runs on the tree with a stale entry\<close>

lemma split_stale:
  "split_loop CHUNK_SIZE ''f.zip'' [''f.dir''] False big_content (Suc 0)
     \<lparr>files = [([], Dir), ([''f''], File big_content), ([''f.dir''], Dir),
               ([''f.dir'', ''f.zip.bak''], File [9]),
               ([''f.zip''], File big_content)], out = out0\<rparr>
   = Ok \<lparr>files = [([], Dir), ([''f''], File big_content), ([''f.dir''], Dir),
               ([''f.dir'', ''f.zip.bak''], File [9]),
               ([''f.zip''], File big_content),
               ([''f.dir'', ''f.zip.1''], File (replicate 1048576 0)),
               ([''f.dir'', ''f.zip.2''], File [0])], out = out0\<rparr>"
  apply (subst split_loop.simps)
  apply (simp add: f_read_def CHUNK_SIZE_def big_content_def write_file_def node_at_def
      chunk_path_def child_def parent_def show_nat_small put_def vsay_def)
  apply (subst split_loop.simps)
  apply (simp add: f_read_def CHUNK_SIZE_def write_file_def node_at_def
      chunk_path_def child_def parent_def show_nat_small put_def vsay_def)
  apply (subst split_loop.simps)
  apply (simp add: f_read_def CHUNK_SIZE_def)
  done

lemma run_split_stale:
  "compress_and_split plain_enc stale_tree [''f''] True False = Ok stale_split_tree"
  by (simp add: compress_and_split_def stale_tree_def stale_split_tree_def st_size_def
      node_at_def MAX_SIZE_def Let_def child_def parent_def name_def mkdir_exist_ok_def say_def
      vsay_def put_def zip_write_def write_file_def read_file_def plain_enc_def split_file_def
      split_stale unlink_def)

lemma run_recover_stale:
  "recover_file plain_dec stale_split_tree [''f.dir''] False False
     = Raise ValueError
         (stale_split_tree\<lparr>out := [Processing [''f''] 1048577, Recovering ''f'' [''f.dir'']]\<rparr>)"
  by (simp add: recover_file_def stale_split_tree_def Let_def sorted_chunks_def glob_def
      listdir_def is_dir_def node_at_def endswith_def name_def parent_def child_def
      suffix_of_def rfind_dot_def chunk_key_def py_int_def strip_def is_space_def
      parse_number_def digit_val_def say_def)

lemma sorted_chunks_beside:
  assumes "sorted_chunks t (child P (a @ ''.dir'')) orig = Inr cs"
  shows "child P z \<notin> set cs"
proof -
  from assms obtain xs where g: "glob t (child P (a @ ''.dir'')) (orig @ ''.zip.*'') = Inr xs"
    by (auto simp: sorted_chunks_def split: sum.splits)
  from sorted_chunks_sorted [OF g assms] have ms: "mset cs = mset xs" by blast
  have "child P (a @ ''.dir'') \<noteq> []" by (simp add: child_def)
  from container_not_a_chunk [OF g ms this, of z] show ?thesis by simp
qed

section \<open>Skipping small files\<close>

text \<open>
  Claim C2. When the file at \<open>file_path\<close> has at most \<open>MAX_SIZE\<close> bytes,
  \<open>compress_and_split\<close> returns normally (no exception), the tree it returns is the tree
  it was given (no directory, container or chunk is created and the source keeps its
  content), and the only output is the \<open>Skipping\<close> line of verbose mode.
\<close>

theorem skip_is_no_mutation:
  assumes "node_at s file_path = Some (File d)" and "length d \<le> MAX_SIZE"
  shows "compress_and_split enc s file_path auto_remove verbose
           = Ok (vsay verbose (Skipping file_path (length d)) s)
         \<and> files (vsay verbose (Skipping file_path (length d)) s) = files s
         \<and> out (vsay verbose (Skipping file_path (length d)) s)
             = out s @ (if verbose then [Skipping file_path (length d)] else [])"
  using assms by (simp add: compress_and_split_def st_size_def vsay_def)

theorem skip_is_no_mutation_witness:
  "compress_and_split plain_enc \<lparr>files = [([], Dir), ([''a.txt''], File [1, 2, 3])], out = []\<rparr>
       [''a.txt''] True True
     = Ok \<lparr>files = [([], Dir), ([''a.txt''], File [1, 2, 3])],
           out = [Skipping [''a.txt''] 3]\<rparr>"
  using skip_is_no_mutation [of "\<lparr>files = [([], Dir), ([''a.txt''], File [1, 2, 3])], out = []\<rparr>"
      "[''a.txt'']" "[1, 2, 3]" plain_enc True True]
  by (simp add: node_at_def MAX_SIZE_def vsay_def say_def)

section \<open>Recovery from a directory without chunks\<close>




section \<open>The transient container\<close>

text \<open>
  Claim C5. After a split that returns (the file is larger than \<open>MAX_SIZE\<close>, so the
  steps are carried out) and after a recovery that returns (the directory is named
  \<open>*.dir\<close> and the glob found chunks), no node sits at the container path
  \<open>original_name.zip\<close> in the parent directory, whatever \<open>auto_remove\<close> and
  \<open>verbose\<close> are.
\<close>

theorem container_deleted_on_success:
  "(st_size s fp = Inr n \<and> MAX_SIZE < n \<and> compress_and_split enc s fp ar v = Ok s'
      \<longrightarrow> node_at s' (child (parent fp) (name fp @ ''.zip'')) = None)
   \<and> (endswith (name dp) ''.dir''
      \<and> glob t dp (take (length (name dp) - 4) (name dp) @ ''.zip.*'') = Inr xs \<and> xs \<noteq> []
      \<and> recover_file dec t dp ar v = Ok t'
      \<longrightarrow> node_at t' (child (parent dp) (take (length (name dp) - 4) (name dp) @ ''.zip'')) = None)"
proof (intro conjI impI, goal_cases)
  case 1
  then show ?case by (elim conjE) (rule split_removes_container)
next
  case 2
  then show ?case by (elim conjE) (rule recover_removes_container)
qed

theorem container_deleted_on_success_witness:
  "compress_and_split plain_enc big_tree [''f''] False False
     = Ok (split_tree\<lparr>out := [Processing [''f''] 1048577]\<rparr>)
   \<and> node_at (split_tree\<lparr>out := [Processing [''f''] 1048577]\<rparr>) [''f.zip''] = None
   \<and> recover_file plain_dec split_tree [''f.dir''] False False
     = Ok (split_tree\<lparr>out := [Recovering ''f'' [''f.dir'']]\<rparr>)
   \<and> node_at (split_tree\<lparr>out := [Recovering ''f'' [''f.dir'']]\<rparr>) [''f.zip''] = None"
  using container_deleted_on_success [where s = big_tree and fp = "[''f'']" and n = 1048577
      and enc = plain_enc and ar = False and v = False
      and s' = "split_tree\<lparr>out := [Processing [''f''] 1048577]\<rparr>"
      and dp = "[''f.dir'']" and t = split_tree and dec = plain_dec
      and xs = "[[''f.dir'', ''f.zip.1''], [''f.dir'', ''f.zip.2'']]"
      and t' = "split_tree\<lparr>out := [Recovering ''f'' [''f.dir'']]\<rparr>"]
  by (simp add: run_split_keep run_recover_keep)
    (simp add: big_tree_def split_tree_def st_size_def node_at_def MAX_SIZE_def child_def
      parent_def name_def endswith_def glob_def is_dir_def listdir_def)

section \<open>Auto-remove\<close>

text \<open>
  Claim C6. For a split that returns on a file larger than \<open>MAX_SIZE\<close>: without
  \<open>auto_remove\<close> the source file is still there with its content, with \<open>auto_remove\<close>
  no node is left at its path. For a recovery that returns after the glob found chunks:
  without \<open>auto_remove\<close> the chunk directory is still a directory, with \<open>auto_remove\<close>
  no node is left at its path. Such runs exist: the split of a file in a directory returns
  for both values of the flag when no file sits at the path of the chunk directory and no
  directory at the path of the container or of a chunk; the recovery returns for both values
  when the sorted chunks are files, their concatenation reads back as one member with the
  plain name \<open>nm\<close>, and no directory sits at the path of the container or of the file.
\<close>

theorem auto_remove_gating:
  "(node_at s fp = Some (File d) \<and> MAX_SIZE < length d
      \<and> compress_and_split enc s fp False v = Ok s' \<longrightarrow> node_at s' fp = Some (File d))
   \<and> (node_at s fp = Some (File d) \<and> MAX_SIZE < length d
      \<and> compress_and_split enc s fp True v = Ok s'' \<longrightarrow> node_at s'' fp = None)
   \<and> (endswith (name dp) ''.dir''
      \<and> glob t dp (take (length (name dp) - 4) (name dp) @ ''.zip.*'') = Inr xs \<and> xs \<noteq> []
      \<and> recover_file dec t dp False v = Ok t' \<longrightarrow> is_dir t' dp)
   \<and> (endswith (name dp) ''.dir''
      \<and> glob t dp (take (length (name dp) - 4) (name dp) @ ''.zip.*'') = Inr xs \<and> xs \<noteq> []
      \<and> recover_file dec t dp True v = Ok t'' \<longrightarrow> node_at t'' dp = None)
   \<and> (node_at s fp = Some (File d) \<and> MAX_SIZE < length d \<and> fp \<noteq> [] \<and> is_dir s (parent fp)
      \<and> (\<forall>x. node_at s (child (parent fp) (name fp @ ''.dir'')) \<noteq> Some (File x))
      \<and> node_at s (child (parent fp) (name fp @ ''.zip'')) \<noteq> Some Dir
      \<and> (\<forall>k. node_at s (chunk_path (child (parent fp) (name fp @ ''.dir''))
                          (name fp @ ''.zip'') k) \<noteq> Some Dir)
      \<longrightarrow> (\<exists>r. compress_and_split enc s fp False v = Ok r \<and> node_at r fp = Some (File d))
          \<and> (\<exists>r. compress_and_split enc s fp True v = Ok r \<and> node_at r fp = None))
   \<and> (sorted_chunks u (child P (nm @ ''.dir'')) nm = Inr cs \<and> cs \<noteq> []
      \<and> map (read_file u) cs = map Inr ds
      \<and> node_at u (child P (nm @ ''.zip'')) \<noteq> Some Dir
      \<and> is_dir u P \<and> is_dir u (child P (nm @ ''.dir''))
      \<and> dec (concat ds) = Some [(nm, c)]
      \<and> CHR ''/'' \<notin> set nm \<and> nm \<noteq> [] \<and> nm \<noteq> ''.'' \<and> nm \<noteq> ''..''
      \<and> node_at u (child P nm) \<noteq> Some Dir
      \<longrightarrow> (\<exists>r. recover_file dec u (child P (nm @ ''.dir'')) False v = Ok r
                \<and> is_dir r (child P (nm @ ''.dir'')))
          \<and> (\<exists>r. recover_file dec u (child P (nm @ ''.dir'')) True v = Ok r
                \<and> node_at r (child P (nm @ ''.dir'')) = None))"
proof (intro conjI impI, goal_cases)
  case 1
  then show ?case by (elim conjE) (rule split_keeps_source)
next
  case 2
  then show ?case by (elim conjE) (rule split_removes_source)
next
  case 3
  then show ?case by (elim conjE) (rule recover_keeps_directory)
next
  case 4
  then show ?case by (elim conjE) (rule recover_removes_directory)
next
  case 5
  then have h: "node_at s fp = Some (File d)" "MAX_SIZE < length d" "fp \<noteq> []"
    "is_dir s (parent fp)"
    "\<forall>x. node_at s (child (parent fp) (name fp @ ''.dir'')) \<noteq> Some (File x)"
    "node_at s (child (parent fp) (name fp @ ''.zip'')) \<noteq> Some Dir"
    "\<forall>k. node_at s (chunk_path (child (parent fp) (name fp @ ''.dir''))
                          (name fp @ ''.zip'') k) \<noteq> Some Dir"
    by blast+
  from split_run [OF h, of enc False v] show ?case by auto
next
  case 6
  then have h: "node_at s fp = Some (File d)" "MAX_SIZE < length d" "fp \<noteq> []"
    "is_dir s (parent fp)"
    "\<forall>x. node_at s (child (parent fp) (name fp @ ''.dir'')) \<noteq> Some (File x)"
    "node_at s (child (parent fp) (name fp @ ''.zip'')) \<noteq> Some Dir"
    "\<forall>k. node_at s (chunk_path (child (parent fp) (name fp @ ''.dir''))
                          (name fp @ ''.zip'') k) \<noteq> Some Dir"
    by blast+
  from split_run [OF h, of enc True v] show ?case by auto
next
  case 7
  then have sc: "sorted_chunks u (child P (nm @ ''.dir'')) nm = Inr cs" and cne: "cs \<noteq> []"
    and rd: "map (read_file u) cs = map Inr ds"
    and zt: "node_at u (child P (nm @ ''.zip'')) \<noteq> Some Dir"
    and pd: "is_dir u P" and dd: "is_dir u (child P (nm @ ''.dir''))"
    and dc: "dec (concat ds) = Some [(nm, c)]"
    and pl: "CHR ''/'' \<notin> set nm" "nm \<noteq> []" "nm \<noteq> ''.''" "nm \<noteq> ''..''"
    and ft: "node_at u (child P nm) \<noteq> Some Dir"
    by blast+
  have nz: "child P (nm @ ''.zip'') \<notin> set cs" using sc by (rule sorted_chunks_beside)
  have seg: "member_segments nm = [nm]" using pl by (rule member_segments_plain)
  have nsl: "\<not> endswith nm ''/''" using pl(1) endswith_slash by blast
  from recover_run [where t = u and P = P and nm = nm and dec = dec and c = c
      and ar = False and v = v, OF sc cne rd nz zt pd dd dc seg nsl ft]
  show ?case by (auto simp: is_dir_def)
next
  case 8
  then have sc: "sorted_chunks u (child P (nm @ ''.dir'')) nm = Inr cs" and cne: "cs \<noteq> []"
    and rd: "map (read_file u) cs = map Inr ds"
    and zt: "node_at u (child P (nm @ ''.zip'')) \<noteq> Some Dir"
    and pd: "is_dir u P" and dd: "is_dir u (child P (nm @ ''.dir''))"
    and dc: "dec (concat ds) = Some [(nm, c)]"
    and pl: "CHR ''/'' \<notin> set nm" "nm \<noteq> []" "nm \<noteq> ''.''" "nm \<noteq> ''..''"
    and ft: "node_at u (child P nm) \<noteq> Some Dir"
    by blast+
  have nz: "child P (nm @ ''.zip'') \<notin> set cs" using sc by (rule sorted_chunks_beside)
  have seg: "member_segments nm = [nm]" using pl by (rule member_segments_plain)
  have nsl: "\<not> endswith nm ''/''" using pl(1) endswith_slash by blast
  from recover_run [where t = u and P = P and nm = nm and dec = dec and c = c
      and ar = True and v = v, OF sc cne rd nz zt pd dd dc seg nsl ft]
  show ?case by auto
qed

theorem auto_remove_gating_witness:
  "compress_and_split plain_enc big_tree [''f''] False False
     = Ok (split_tree\<lparr>out := [Processing [''f''] 1048577]\<rparr>)
   \<and> node_at (split_tree\<lparr>out := [Processing [''f''] 1048577]\<rparr>) [''f'']
       = Some (File big_content)
   \<and> compress_and_split plain_enc big_tree [''f''] True False
     = Ok \<lparr>files = [([], Dir), ([''f.dir''], Dir),
                     ([''f.dir'', ''f.zip.1''], File (replicate 1048576 0)),
                     ([''f.dir'', ''f.zip.2''], File [0])],
           out = [Processing [''f''] 1048577]\<rparr>
   \<and> node_at \<lparr>files = [([], Dir), ([''f.dir''], Dir),
                        ([''f.dir'', ''f.zip.1''], File (replicate 1048576 0)),
                        ([''f.dir'', ''f.zip.2''], File [0])],
              out = [Processing [''f''] 1048577]\<rparr> [''f''] = None
   \<and> recover_file plain_dec split_tree [''f.dir''] False False
     = Ok (split_tree\<lparr>out := [Recovering ''f'' [''f.dir'']]\<rparr>)
   \<and> is_dir (split_tree\<lparr>out := [Recovering ''f'' [''f.dir'']]\<rparr>) [''f.dir'']
   \<and> recover_file plain_dec split_tree [''f.dir''] True False
     = Ok \<lparr>files = [([], Dir), ([''f''], File big_content)],
           out = [Recovering ''f'' [''f.dir'']]\<rparr>
   \<and> node_at \<lparr>files = [([], Dir), ([''f''], File big_content)],
              out = [Recovering ''f'' [''f.dir'']]\<rparr> [''f.dir''] = None"
  using auto_remove_gating [where s = big_tree and fp = "[''f'']" and d = big_content
      and enc = plain_enc and v = False
      and s' = "split_tree\<lparr>out := [Processing [''f''] 1048577]\<rparr>"
      and s'' = "\<lparr>files = [([], Dir), ([''f.dir''], Dir),
               ([''f.dir'', ''f.zip.1''], File (replicate 1048576 0)),
               ([''f.dir'', ''f.zip.2''], File [0])],
           out = [Processing [''f''] 1048577]\<rparr>"
      and dp = "[''f.dir'']" and t = split_tree and dec = plain_dec
      and xs = "[[''f.dir'', ''f.zip.1''], [''f.dir'', ''f.zip.2'']]"
      and t' = "split_tree\<lparr>out := [Recovering ''f'' [''f.dir'']]\<rparr>"
      and t'' = "\<lparr>files = [([], Dir), ([''f''], File big_content)],
           out = [Recovering ''f'' [''f.dir'']]\<rparr>"
      and u = split_tree and P = "[]" and nm = "''f''" and c = big_content
      and cs = "[[''f.dir'', ''f.zip.1''], [''f.dir'', ''f.zip.2'']]"
      and ds = "[replicate 1048576 0, [0]]"]
  by (simp add: run_split_keep run_split_remove run_recover_keep run_recover_remove)
    (simp add: big_tree_def split_tree_def node_at_def MAX_SIZE_def child_def
      parent_def name_def endswith_def glob_def is_dir_def listdir_def)

section \<open>Failures stay with their entry\<close>




section \<open>Split mode: what the scanner skips\<close>

text \<open>
  Claim C8 says that a non-directory entry is skipped by the \<open>.dir\<close> rule exactly when
  a directory segment of its path ends in \<open>.dir\<close>. The test of the script runs over all
  parts of the path, the entry's own name included (the comment beside it speaks of files in
  \<open>.dir\<close> directories). Here a regular file of more than \<open>MAX_SIZE\<close> bytes named
  \<open>big.dir\<close> sits directly under the root, which is the directory scanned: it has no
  directory segment at all, it is no \<open>.zip\<close> file and not the script, \<open>stat\<close> and
  \<open>print\<close> never fail, and the scan returns with the tree and the output as they were,
  so the file never reached \<open>compress_and_split\<close>.
\<close>

theorem file_named_dir_is_skipped:
  "node_at dir_named_file_tree [''big.dir''] = Some (File big_content)
   \<and> MAX_SIZE < length big_content
   \<and> parent [''big.dir''] = []
   \<and> suffix_of (name [''big.dir'']) \<noteq> ''.zip''
   \<and> name [''big.dir''] \<noteq> ''large_file_splitter.py''
   \<and> scan_directory plain_enc plain_dec quiet_env [] [[''big.dir'']] dir_named_file_tree
        False False True
       = Ok dir_named_file_tree"
  by (simp add: dir_named_file_tree_def node_at_def MAX_SIZE_def parent_def name_def
      suffix_of_def rfind_dot_def scan_directory_def scan_split_item_def is_dir_def
      endswith_def quiet_env_def rglob_def path_is_dir_def parts_def big_content_def)

section \<open>The sort key of the chunks\<close>

text \<open>
  Claim C10. The key of a matching path is \<open>int\<close> of its final suffix without the dot.
  When the glob yields a path whose key does not parse, \<open>recover_file\<close> raises
  \<open>ValueError\<close> right after the \<open>Recovering\<close> line, with the tree as it was given, so
  before any container is written; a suffix holding a character that is no digit, space,
  sign or underscore (as in \<open>.bak\<close>) does not parse. When the suffix of every matching
  path is a decimal numeral, all keys parse, the sorted list exists, and \<open>recover_file\<close>
  raises \<open>ValueError\<close> in no state.
\<close>

theorem sort_key_failure:
  "(endswith (name dp) ''.dir''
      \<and> glob s dp (take (length (name dp) - 4) (name dp) @ ''.zip.*'') = Inr xs
      \<and> x \<in> set xs \<and> chunk_key x = None
      \<longrightarrow> recover_file dec s dp ar v
            = Raise ValueError (say (Recovering (take (length (name dp) - 4) (name dp)) dp) s)
          \<and> files (say (Recovering (take (length (name dp) - 4) (name dp)) dp) s) = files s)
   \<and> (c \<in> set (drop 1 (suffix_of (name y))) \<and> \<not> is_space c \<and> \<not> decimal_digit c
      \<and> c \<noteq> CHR ''_'' \<and> c \<noteq> CHR ''+'' \<and> c \<noteq> CHR ''-''
      \<longrightarrow> chunk_key y = None)
   \<and> (glob s dp (take (length (name dp) - 4) (name dp) @ ''.zip.*'') = Inr xs
      \<and> (\<forall>x \<in> set xs. decimal_numeral (drop 1 (suffix_of (name x))))
      \<longrightarrow> (\<exists>cs. sorted_chunks s dp (take (length (name dp) - 4) (name dp)) = Inr cs)
          \<and> (\<forall>t. recover_file dec s dp ar v \<noteq> Raise ValueError t))"
proof (intro conjI impI, goal_cases)
  case 1
  then show ?case by (elim conjE) (rule recover_file_bad_key)
next
  case 2
  show ?case by simp
next
  case 3
  then show ?case unfolding chunk_key_def by (elim conjE) (rule py_int_bad_char)
next
  case 4
  then show ?case by (elim conjE) (rule sorted_chunks_decimal)
next
  case 5
  then obtain cs where "sorted_chunks s dp (take (length (name dp) - 4) (name dp)) = Inr cs"
    using sorted_chunks_decimal by blast
  then show ?case using recover_file_ValueError_from_sort by blast
qed

theorem sort_key_failure_witness:
  "recover_file plain_dec mixed_tree [''f.dir''] True False
     = Raise ValueError (mixed_tree\<lparr>out := [Recovering ''f'' [''f.dir'']]\<rparr>)
   \<and> chunk_key [''f.dir'', ''f.zip.bak''] = None
   \<and> (\<exists>cs. sorted_chunks split_tree [''f.dir''] ''f'' = Inr cs)
   \<and> (\<forall>t. recover_file plain_dec split_tree [''f.dir''] True False \<noteq> Raise ValueError t)"
  using sort_key_failure [where dp = "[''f.dir'']" and s = mixed_tree
      and xs = "[[''f.dir'', ''f.zip.bak'']]" and x = "[''f.dir'', ''f.zip.bak'']"
      and dec = plain_dec and ar = True and v = False
      and c = "CHR ''b''" and y = "[''f.dir'', ''f.zip.bak'']"]
    sort_key_failure [where dp = "[''f.dir'']" and s = split_tree
      and xs = "[[''f.dir'', ''f.zip.1''], [''f.dir'', ''f.zip.2'']]"
      and dec = plain_dec and ar = True and v = False]
  by (simp add: mixed_tree_def split_tree_def glob_def is_dir_def node_at_def listdir_def
      parent_def name_def endswith_def suffix_of_def rfind_dot_def is_space_def
      decimal_digit_def decimal_numeral_def say_def)

section \<open>The chunk writer\<close>

text \<open>
  Claim C3. Let the stream be the content \<open>data\<close> of \<open>zip_path\<close>, let the chunk size
  \<open>n\<close> be positive and the output directory a directory in which no chunk name is taken
  by a directory. Then \<open>split_file\<close> returns, and with \<open>K\<close> the ceiling of
  \<open>length data / n\<close>: the chunk files numbered \<open>1..K\<close> hold the consecutive blocks of
  \<open>n\<close> bytes of the stream, every other path of the tree is as before (so no number is
  left out and none beyond \<open>K\<close> is written), each chunk before the last has exactly \<open>n\<close>
  bytes, the last has the positive remainder of at most \<open>n\<close> bytes, and a stream of
  \<open>m * n\<close> bytes gives exactly \<open>m\<close> chunks, with no empty one after them.
\<close>

theorem chunks_numbered_contiguously:
  assumes "0 < n" and "read_file s zp = Inr data" and "is_dir s od"
    and "\<forall>k. node_at s (chunk_path od (name zp) k) \<noteq> Some Dir"
    and "K = (length data + n - 1) div n"
  shows "\<exists>s'. split_file s zp od (int n) v = Ok s'
     \<and> (\<forall>k. 1 \<le> k \<and> k \<le> K \<longrightarrow>
           node_at s' (chunk_path od (name zp) k)
             = Some (File (take n (drop ((k - 1) * n) data))))
     \<and> (\<forall>q. (\<forall>k. 1 \<le> k \<and> k \<le> K \<longrightarrow> q \<noteq> chunk_path od (name zp) k)
           \<longrightarrow> node_at s' q = node_at s q)
     \<and> (\<forall>k. 1 \<le> k \<and> k < K \<longrightarrow> length (take n (drop ((k - 1) * n) data)) = n)
     \<and> (0 < K \<longrightarrow> length (take n (drop ((K - 1) * n) data)) = length data - (K - 1) * n
           \<and> 0 < length data - (K - 1) * n \<and> length data - (K - 1) * n \<le> n)
     \<and> length data \<le> K * n
     \<and> (0 < length data \<longrightarrow> (K - 1) * n < length data)
     \<and> (\<forall>m. length data = m * n \<longrightarrow> K = m)"
proof -
  let ?z = "name zp"
  from split_loop_writes [OF assms(1,3,4), of v data 1] obtain s' where
    r: "split_loop (int n) ?z od v data 1 s = Ok s'" and
    a: "\<forall>i < (length data + n - 1) div n.
          node_at s' (chunk_path od ?z (1 + i)) = Some (File (take n (drop (i * n) data)))" and
    b: "\<forall>q. (\<forall>i < (length data + n - 1) div n. q \<noteq> chunk_path od ?z (1 + i))
          \<longrightarrow> node_at s' q = node_at s q"
    by blast
  from r assms(2) have 1: "split_file s zp od (int n) v = Ok s'" by (simp add: split_file_def)
  have 2: "\<forall>k. 1 \<le> k \<and> k \<le> K \<longrightarrow>
      node_at s' (chunk_path od ?z k) = Some (File (take n (drop ((k - 1) * n) data)))"
  proof (intro allI impI)
    fix k assume k: "1 \<le> k \<and> k \<le> K"
    then have "k - 1 < K" by arith
    then have "k - 1 < (length data + n - 1) div n" unfolding assms(5) .
    with a have "node_at s' (chunk_path od ?z (1 + (k - 1)))
        = Some (File (take n (drop ((k - 1) * n) data)))" by blast
    with k show "node_at s' (chunk_path od ?z k) = Some (File (take n (drop ((k - 1) * n) data)))"
      by simp
  qed
  have 3: "\<forall>q. (\<forall>k. 1 \<le> k \<and> k \<le> K \<longrightarrow> q \<noteq> chunk_path od ?z k) \<longrightarrow> node_at s' q = node_at s q"
  proof (intro allI impI)
    fix q assume q: "\<forall>k. 1 \<le> k \<and> k \<le> K \<longrightarrow> q \<noteq> chunk_path od ?z k"
    have "\<forall>i < (length data + n - 1) div n. q \<noteq> chunk_path od ?z (1 + i)"
    proof (intro allI impI)
      fix i assume "i < (length data + n - 1) div n"
      then have "1 \<le> 1 + i \<and> 1 + i \<le> K" using assms(5) by simp
      with q show "q \<noteq> chunk_path od ?z (1 + i)" by blast
    qed
    with b show "node_at s' q = node_at s q" by blast
  qed
  have 4: "\<forall>k. 1 \<le> k \<and> k < K \<longrightarrow> length (take n (drop ((k - 1) * n) data)) = n"
  proof (intro allI impI)
    fix k assume k: "1 \<le> k \<and> k < K"
    then have "k * n \<le> length data" using chunk_lengths(1) [OF assms(1,5)] by blast
    moreover from k have "k * n = (k - 1) * n + n" by (cases k) simp_all
    ultimately show "length (take n (drop ((k - 1) * n) data)) = n" by simp
  qed
  have 5: "0 < K \<longrightarrow> length (take n (drop ((K - 1) * n) data)) = length data - (K - 1) * n
      \<and> 0 < length data - (K - 1) * n \<and> length data - (K - 1) * n \<le> n"
    using chunk_lengths(2) [OF assms(1,5)] by auto
  have 6: "length data \<le> K * n" using ceil_bounds(1) [OF assms(1)] assms(5) by simp
  have 7: "0 < length data \<longrightarrow> (K - 1) * n < length data"
    using ceil_bounds(2) [OF assms(1)] assms(5) by simp
  have 8: "\<forall>m. length data = m * n \<longrightarrow> K = m"
    using ceil_exact [OF assms(1)] assms(5) by simp
  from 1 2 3 4 5 6 7 8 show ?thesis by blast
qed

theorem chunks_numbered_contiguously_witness:
  "\<exists>s'. split_file small_zip_tree [''f.zip''] [''f.dir''] 2 False = Ok s'
     \<and> node_at s' [''f.dir'', ''f.zip.1''] = Some (File [1, 2])
     \<and> node_at s' [''f.dir'', ''f.zip.2''] = Some (File [3, 4])
     \<and> node_at s' [''f.dir'', ''f.zip.3''] = None"
proof -
  have h: "0 < (2::nat)" "read_file small_zip_tree [''f.zip''] = Inr [1, 2, 3, 4]"
    "is_dir small_zip_tree [''f.dir'']"
    "\<forall>k. node_at small_zip_tree (chunk_path [''f.dir''] (name [''f.zip'']) k) \<noteq> Some Dir"
    "(2::nat) = (length [1, 2, 3, 4 :: byte] + 2 - 1) div 2"
    by (simp_all add: small_zip_tree_def read_file_def is_dir_def node_at_def chunk_path_def
        child_def)
  have p: "chunk_path [''f.dir''] (name [''f.zip'']) 1 = [''f.dir'', ''f.zip.1'']"
    "chunk_path [''f.dir''] (name [''f.zip'']) 2 = [''f.dir'', ''f.zip.2'']"
    "chunk_path [''f.dir''] (name [''f.zip'']) 3 = [''f.dir'', ''f.zip.3'']"
    by (simp_all add: chunk_path_def child_def name_def show_nat.simps digit_char_def)
  from chunks_numbered_contiguously [OF h, of False] obtain s' where
    r: "split_file small_zip_tree [''f.zip''] [''f.dir''] (int 2) False = Ok s'" and
    a: "\<forall>k. 1 \<le> k \<and> k \<le> 2 \<longrightarrow>
          node_at s' (chunk_path [''f.dir''] (name [''f.zip'']) k)
            = Some (File (take 2 (drop ((k - 1) * 2) [1, 2, 3, 4])))" and
    b: "\<forall>q. (\<forall>k. 1 \<le> k \<and> k \<le> 2 \<longrightarrow> q \<noteq> chunk_path [''f.dir''] (name [''f.zip'']) k)
          \<longrightarrow> node_at s' q = node_at small_zip_tree q"
    by blast
  from a [rule_format, of 1] p have c1: "node_at s' [''f.dir'', ''f.zip.1''] = Some (File [1, 2])"
    by simp
  from a [rule_format, of 2] p have c2: "node_at s' [''f.dir'', ''f.zip.2''] = Some (File [3, 4])"
    by simp
  have "\<forall>k. 1 \<le> k \<and> k \<le> 2 \<longrightarrow>
      chunk_path [''f.dir''] (name [''f.zip'']) 3 \<noteq> chunk_path [''f.dir''] (name [''f.zip'']) k"
    using chunk_path_inj by fastforce
  with b have "node_at s' (chunk_path [''f.dir''] (name [''f.zip'']) 3)
      = node_at small_zip_tree (chunk_path [''f.dir''] (name [''f.zip'']) 3)" by blast
  then have c3: "node_at s' [''f.dir'', ''f.zip.3''] = None"
    by (simp add: p) (simp add: small_zip_tree_def node_at_def)
  from r c1 c2 c3 show ?thesis by simp
qed

section \<open>The chunk reader\<close>



section \<open>Split, then recover\<close>




end
